theory Spec2Isabelle
  imports Main
begin

section \<open>Common types (cell\_header.py)\<close>

text \<open>
  Dates are Python integers of the form YYYYMMDD and are used arithmetically, so they are
  unbounded integers here. Keys and column names are text. A \<open>CellAddr\<close> is the frozen
  pair (date, col).
\<close>

type_synonym Date = int
type_synonym CellKey = string
type_synonym ColumnName = string
type_synonym CellAddr = "Date \<times> ColumnName"

text \<open>The exceptions the modelled code raises. \<open>UnpicklingError\<close> stands for any
  failure of \<open>open\<close>/\<open>pickle.load\<close> on a file that exists, \<open>OSError\<close> for a failure
  of \<open>open(path, "wb")\<close>, \<open>PicklingError\<close> for a failure of \<open>pickle.dump\<close>,
  \<open>NotAvailable\<close> for the \<open>KeyError("Not available on date.")\<close> of the table's
  availability guard, \<open>NameError\<close> for the use of a name that no module binds, and
  \<open>RecursionError\<close> for a recursion deeper than the bound given to \<open>dfs\<close>.\<close>

datatype error =
    PermissionError | KeyError | LookupError | ValueError | TypeError | IndexError
  | UnpicklingError | OSError | PicklingError | NotAvailable | NameError | RecursionError

section \<open>PageMaster (helpers/page\_master.py)\<close>

text \<open>
  A page is a Python dict. Its keys are the strings built by \<open>_addr_key\<close>,
  \<open>"{}: {}".format(str(addr), key)\<close>; that string determines the pair (addr, key), so
  the pair itself is the key of the model. A dict may hold Python's \<open>None\<close> as a value:
  the values of a page are \<open>'v option\<close>, with \<open>None\<close> for Python's \<open>None\<close>.

  A file of the backing storage either unpickles to a page or makes the load raise.
  File names are \<open>os.path.join(CELL_FILES_DIR, "{}_{}".format(prefix, page_name))\<close>,
  one per page name for a given store, so files are indexed by page name.

  Writing a file is \<open>open(path, "wb")\<close> followed by \<open>pickle.dump\<close>. Either can raise:
  \<open>open\<close> for a missing directory or a path that may not be written, \<open>pickle.dump\<close>
  for a page that holds a value \<open>pickle\<close> does not accept (values are \<open>Any\<close>). What
  happens is the environment's answer, \<open>on_write\<close>, for the file and the page written;
  it is not a field of the source.
\<close>

type_synonym ('a, 'v) page = "('a \<times> CellKey) \<rightharpoonup> 'v option"

datatype 'p stored_file = Pickled 'p | Malformed

datatype write_outcome = Written | OpenFails | DumpFails

record ('a, 'n, 'v) PageMaster =
  readonly :: bool
  cache :: "('n \<times> ('a, 'v) page) list"
  cache_size :: int
  addr_to_page :: "'a \<Rightarrow> 'n"
  files :: "'n \<rightharpoonup> ('a, 'v) page stored_file"
  on_write :: "'n \<Rightarrow> ('a, 'v) page \<Rightarrow> write_outcome"

text \<open>A Python exception leaves the object as mutated so far: a failing call returns the
  error together with the state reached.\<close>

type_synonym ('a, 'n, 'v, 'r) pm_result =
  "(error \<times> ('a, 'n, 'v) PageMaster) + ('r \<times> ('a, 'n, 'v) PageMaster)"

definition addr_key :: "'a \<Rightarrow> CellKey \<Rightarrow> 'a \<times> CellKey" where
  "addr_key addr key = (addr, key)"

text \<open>\<open>_load_file\<close>: an empty dict if the path does not exist, else \<open>pickle.load\<close>.\<close>

definition load_file :: "('a, 'n, 'v) PageMaster \<Rightarrow> 'n \<Rightarrow> error + ('a, 'v) page" where
  "load_file pm path =
     (case files pm path of
        None \<Rightarrow> Inr Map.empty
      | Some (Pickled p) \<Rightarrow> Inr p
      | Some Malformed \<Rightarrow> Inl UnpicklingError)"

text \<open>\<open>_save_file\<close>: refused in a read-only store; otherwise \<open>open(path, "wb")\<close>, which
  raises and leaves the file as it was or else empties it, and \<open>pickle.dump\<close>, which
  raises and leaves a file that does not unpickle or else writes the page.\<close>

definition save_file ::
  "('a, 'n, 'v) PageMaster \<Rightarrow> ('a, 'v) page \<Rightarrow> 'n \<Rightarrow> ('a, 'n, 'v, unit) pm_result" where
  "save_file pm obj path =
     (if readonly pm then Inl (PermissionError, pm)
      else case on_write pm path obj of
             OpenFails \<Rightarrow> Inl (OSError, pm)
           | DumpFails \<Rightarrow> Inl (PicklingError, pm\<lparr>files := (files pm)(path \<mapsto> Malformed)\<rparr>)
           | Written \<Rightarrow> Inr ((), pm\<lparr>files := (files pm)(path \<mapsto> Pickled obj)\<rparr>))"

text \<open>\<open>_save_single_page\<close>: without an index the last cache slot is saved;
  \<open>self.cache[len - 1]\<close> on an empty cache is an IndexError.\<close>

definition save_single_page ::
  "('a, 'n, 'v) PageMaster \<Rightarrow> nat option \<Rightarrow> ('a, 'n, 'v, unit) pm_result" where
  "save_single_page pm cache_index =
     (if readonly pm then Inl (PermissionError, pm)
      else if cache pm = [] then Inl (IndexError, pm)
      else
        let ci = (case cache_index of None \<Rightarrow> length (cache pm) - 1 | Some i \<Rightarrow> i)
        in if ci < length (cache pm)
           then save_file pm (snd (cache pm ! ci)) (fst (cache pm ! ci))
           else Inl (IndexError, pm))"

text \<open>Python's slice \<open>xs[:n]\<close>: a negative bound counts from the end.\<close>

definition slice_to :: "'x list \<Rightarrow> int \<Rightarrow> 'x list" where
  "slice_to xs n = (if 0 \<le> n then take (nat n) xs else take (length xs - nat (- n)) xs)"

definition load_new_page ::
  "('a, 'n, 'v) PageMaster \<Rightarrow> 'n \<Rightarrow> ('a, 'n, 'v, ('a, 'v) page) pm_result" where
  "load_new_page pm page_name =
     (case load_file pm page_name of
        Inl e \<Rightarrow> Inl (e, pm)
      | Inr new_dict \<Rightarrow>
          let pm1 = pm\<lparr>cache := (page_name, new_dict) # cache pm\<rparr>
          in if int (length (cache pm1)) > cache_size pm1
             then (case save_single_page pm1 None of
                     Inl ep \<Rightarrow> Inl ep
                   | Inr (_, pm2) \<Rightarrow>
                       Inr (new_dict, pm2\<lparr>cache := slice_to (cache pm2) (cache_size pm2)\<rparr>))
             else Inr (new_dict, pm1))"

text \<open>The \<open>for ci, c in enumerate(self.cache)\<close> scan: the first slot with the name.\<close>

fun cache_index_of :: "'n \<Rightarrow> ('n \<times> 'p) list \<Rightarrow> nat option" where
  "cache_index_of page_name [] = None"
| "cache_index_of page_name (c # cs) =
     (if fst c = page_name then Some 0
      else map_option Suc (cache_index_of page_name cs))"

definition get_page ::
  "('a, 'n, 'v) PageMaster \<Rightarrow> 'a \<Rightarrow> ('a, 'n, 'v, ('a, 'v) page) pm_result" where
  "get_page pm addr =
     (let page_name = addr_to_page pm addr
      in case cache_index_of page_name (cache pm) of
           Some ci \<Rightarrow>
             Inr (snd (cache pm ! ci),
                  pm\<lparr>cache := [cache pm ! ci] @ take ci (cache pm) @ drop (ci + 1) (cache pm)\<rparr>)
         | None \<Rightarrow> load_new_page pm page_name)"

text \<open>
  \<open>get_value\<close> wraps the lookup in \<open>try: ... except: result = None\<close>. The result keeps
  the sum type of the other operations so that "never raises" is a statement about it.
\<close>

definition get_value ::
  "('a, 'n, 'v) PageMaster \<Rightarrow> 'a \<Rightarrow> CellKey \<Rightarrow> ('a, 'n, 'v, 'v option) pm_result" where
  "get_value pm addr key =
     (case get_page pm addr of
        Inr (page, pm') \<Rightarrow>
          Inr ((case page (addr_key addr key) of None \<Rightarrow> None | Some v \<Rightarrow> v), pm')
      | Inl (e, pm') \<Rightarrow> Inr (None, pm'))"

text \<open>
  \<open>page[k] = value\<close> mutates the dict object that \<open>_get_page\<close> returned. After
  \<open>_get_page\<close> that object sits in the first cache slot (moved or inserted there),
  unless the slice of \<open>_load_new_page\<close> left the cache empty; then no slot refers to
  the dict and the write is seen by nobody.
\<close>

definition mutate_front ::
  "('a, 'n, 'v) PageMaster \<Rightarrow> ('a \<times> CellKey) \<Rightarrow> 'v option \<Rightarrow> ('a, 'n, 'v) PageMaster" where
  "mutate_front pm k v =
     (case cache pm of
        [] \<Rightarrow> pm
      | c # cs \<Rightarrow> pm\<lparr>cache := (fst c, (snd c)(k \<mapsto> v)) # cs\<rparr>)"

definition set_value ::
  "('a, 'n, 'v) PageMaster \<Rightarrow> 'a \<Rightarrow> CellKey \<Rightarrow> 'v option \<Rightarrow> ('a, 'n, 'v, unit) pm_result" where
  "set_value pm addr key v =
     (if readonly pm then Inl (PermissionError, pm)
      else case get_page pm addr of
             Inl ep \<Rightarrow> Inl ep
           | Inr (page, pm') \<Rightarrow> Inr ((), mutate_front pm' (addr_key addr key) v))"

section \<open>DateSet (helpers/date\_set.py)\<close>

text \<open>
  \<open>dates_keys\<close> is a \<open>defaultdict(set)\<close> from dates to sets of keys, \<open>dates\<close> the
  sorted list of dates. A set of keys is a duplicate-free list in insertion order: the
  code iterates over these sets, in an order Python leaves open, and the list fixes one.
\<close>

record DateSet =
  dates_keys :: "Date \<rightharpoonup> CellKey list"
  dates :: "Date list"

text \<open>
  The binary search. A call from outside leaves \<open>st\<close> and \<open>en\<close> unset, so it starts
  at \<open>0\<close> and \<open>len(self.dates)\<close>; from there \<open>st \<le> en\<close> holds in every recursive
  call and \<open>st == en\<close> is the exit. The guard below also stops at \<open>en < st\<close>, which
  no call reaches.
\<close>

function smallest_ind_gt_date_from :: "Date list \<Rightarrow> Date \<Rightarrow> nat \<Rightarrow> nat \<Rightarrow> nat" where
  "smallest_ind_gt_date_from ds date st en =
     (if en \<le> st then st
      else if ds ! ((st + en) div 2) > date
           then smallest_ind_gt_date_from ds date st ((st + en) div 2)
           else smallest_ind_gt_date_from ds date ((st + en) div 2 + 1) en)"
  by pat_completeness auto
termination
  by (relation "measure (\<lambda>(ds, date, st, en). en - st)") auto

definition smallest_ind_gt_date :: "DateSet \<Rightarrow> Date \<Rightarrow> nat" where
  "smallest_ind_gt_date dset date =
     smallest_ind_gt_date_from (dates dset) date 0 (length (dates dset))"

definition slice :: "DateSet \<Rightarrow> Date option \<Rightarrow> Date option \<Rightarrow> Date list" where
  "slice dset st_date en_date =
     (if length (dates dset) = 0 then []
      else
        let st_ind =
              (case st_date of
                 None \<Rightarrow> 0
               | Some sd \<Rightarrow>
                   let i = smallest_ind_gt_date dset sd
                   in if i > 0 \<and> dates dset ! (i - 1) = sd then i - 1 else i);
            en_ind =
              (case en_date of
                 None \<Rightarrow> length (dates dset)
               | Some ed \<Rightarrow> smallest_ind_gt_date dset ed)
        in drop st_ind (take en_ind (dates dset)))"

text \<open>
  \<open>push_date\<close> has two bare \<open>return\<close>s and falls off its end: every path hands back
  Python's \<open>None\<close>. The returned value is the first component, \<open>None\<close> for \<open>None\<close>.
\<close>

definition add_key :: "CellKey \<Rightarrow> CellKey list \<Rightarrow> CellKey list" where
  "add_key k ks = (if k \<in> set ks then ks else ks @ [k])"

definition push_date :: "DateSet \<Rightarrow> Date \<Rightarrow> CellKey \<Rightarrow> bool option \<times> DateSet" where
  "push_date dset date cell_key =
     (let date_already_encountered = (dates_keys dset date \<noteq> None);
          ks = (case dates_keys dset date of None \<Rightarrow> [] | Some ks \<Rightarrow> ks);
          d1 = dset\<lparr>dates_keys := (dates_keys dset)(date \<mapsto> add_key cell_key ks)\<rparr>
      in if date_already_encountered then (None, d1)
         else if length (dates d1) = 0 then (None, d1\<lparr>dates := [date]\<rparr>)
         else
           let ind = smallest_ind_gt_date d1 date
           in (None, d1\<lparr>dates := take ind (dates d1) @ [date] @ drop ind (dates d1)\<rparr>))"

section \<open>Topological sort (helpers/topological\_sort.py)\<close>

text \<open>
  The graph is a dict from node names to the sets of their children: an association
  list in the order of the dict's keys, each set a list in the order in which the
  \<open>for\<close> loop meets its elements. The keys of a dict are distinct.
\<close>

datatype Color = WHITE | GRAY | BLACK

record Node =
  start :: "int option"
  finish :: "int option"
  color :: Color

definition new_node :: Node where
  "new_node = \<lparr>start = None, finish = None, color = WHITE\<rparr>"

type_synonym 'a graph = "('a \<times> 'a list) list"

record 'a dfs_state =
  nodes :: "'a \<rightharpoonup> Node"
  time :: int

text \<open>
  \<open>set_start\<close> and \<open>set_finish\<close> advance the shared clock and stamp \<open>nodes[v]\<close>;
  \<open>dfs\<close> calls them for a node whose entry it has just read.
\<close>

definition set_start :: "'a \<Rightarrow> 'a dfs_state \<Rightarrow> 'a dfs_state" where
  "set_start v s =
     s\<lparr>time := time s + 1,
       nodes := (nodes s)(v := map_option (\<lambda>nd. nd\<lparr>start := Some (time s + 1), color := GRAY\<rparr>)
                                  (nodes s v))\<rparr>"

definition set_finish :: "'a \<Rightarrow> 'a dfs_state \<Rightarrow> 'a dfs_state" where
  "set_finish v s =
     s\<lparr>time := time s + 1,
       nodes := (nodes s)(v := map_option (\<lambda>nd. nd\<lparr>finish := Some (time s + 1), color := BLACK\<rparr>)
                                  (nodes s v))\<rparr>"

text \<open>
  \<open>dfs\<close> and its loop over \<open>graph[v]\<close>. The first argument bounds the depth of
  the recursion, and a call that would exceed it yields RecursionError. \<open>topological\<close>
  allows one level more than there are nodes; no call chain is longer than that, as the
  result on \<open>topological\<close> shows by excluding this error. The interpreter's own
  recursion limit is not part of the model.
\<close>

fun dfs :: "nat \<Rightarrow> 'a graph \<Rightarrow> 'a \<Rightarrow> 'a dfs_state \<Rightarrow> error + 'a dfs_state"
  and dfs_deps :: "nat \<Rightarrow> 'a graph \<Rightarrow> 'a list \<Rightarrow> 'a dfs_state \<Rightarrow> error + 'a dfs_state" where
  "dfs 0 graph v s = Inl RecursionError"
| "dfs (Suc depth) graph v s =
     (case nodes s v of
        None \<Rightarrow> Inl KeyError
      | Some nd \<Rightarrow>
          if color nd = GRAY then Inl ValueError
          else
            (case map_of graph v of
               None \<Rightarrow> Inl KeyError
             | Some deps \<Rightarrow>
                 (case dfs_deps depth graph deps (set_start v s) of
                    Inl e \<Rightarrow> Inl e
                  | Inr s' \<Rightarrow> Inr (set_finish v s'))))"
| "dfs_deps depth graph [] s = Inr s"
| "dfs_deps depth graph (dep # deps) s =
     (case nodes s dep of
        None \<Rightarrow> dfs_deps depth graph deps s
      | Some nd \<Rightarrow>
          if color nd \<noteq> BLACK
          then (case dfs depth graph dep s of
                  Inl e \<Rightarrow> Inl e
                | Inr s' \<Rightarrow> dfs_deps depth graph deps s')
          else dfs_deps depth graph deps s)"

text \<open>The loop \<open>for v in graph.keys()\<close> of \<open>topological\<close>.\<close>

fun dfs_all :: "nat \<Rightarrow> 'a graph \<Rightarrow> 'a list \<Rightarrow> 'a dfs_state \<Rightarrow> error + 'a dfs_state" where
  "dfs_all depth graph [] s = Inr s"
| "dfs_all depth graph (v # vs) s =
     (case nodes s v of
        None \<Rightarrow> Inl KeyError
      | Some nd \<Rightarrow>
          if color nd = WHITE
          then (case dfs depth graph v s of
                  Inl e \<Rightarrow> Inl e
                | Inr s' \<Rightarrow> dfs_all depth graph vs s')
          else dfs_all depth graph vs s)"

text \<open>
  The end of \<open>topological\<close>: the pairs (key, finish) in the order of \<open>nodes\<close>, which
  is the order of the graph's keys, sorted by \<open>-finish\<close> with Python's stable sort.
  Negating a finish time that is still \<open>None\<close> is a TypeError.
\<close>

definition key_finishes :: "'a graph \<Rightarrow> 'a dfs_state \<Rightarrow> ('a \<times> int option) list" where
  "key_finishes graph s =
     map (\<lambda>k. (k, case nodes s k of None \<Rightarrow> None | Some nd \<Rightarrow> finish nd)) (map fst graph)"

definition topological :: "'a graph \<Rightarrow> error + 'a list" where
  "topological graph =
     (case dfs_all (Suc (length graph)) graph (map fst graph)
             \<lparr>nodes = map_of (map (\<lambda>kv. (fst kv, new_node)) graph), time = 0\<rparr> of
        Inl e \<Rightarrow> Inl e
      | Inr s \<Rightarrow>
          if list_ex (\<lambda>x. snd x = None) (key_finishes graph s) then Inl TypeError
          else Inr (map fst (sort_key (\<lambda>x. - the (snd x)) (key_finishes graph s))))"

text \<open>
  The edges that count: from a key to a child that is itself a key. \<open>prune\<close> drops
  every other child from the graph. \<open>index_of\<close> is \<open>list.index\<close> for an element
  of the list.
\<close>

definition edges :: "'a graph \<Rightarrow> ('a \<times> 'a) set" where
  "edges graph = {(u, v). \<exists>deps. (u, deps) \<in> set graph \<and> v \<in> set deps \<and> v \<in> fst ` set graph}"

definition prune :: "'a graph \<Rightarrow> 'a graph" where
  "prune graph = map (\<lambda>kv. (fst kv, filter (\<lambda>d. d \<in> fst ` set graph) (snd kv))) graph"

definition index_of :: "'a list \<Rightarrow> 'a \<Rightarrow> nat" where
  "index_of xs x = length (takeWhile (\<lambda>y. y \<noteq> x) xs)"


text \<open>
  Notions for the proof: the colour and finish time of a node in a state, the white
  keys, the invariant of the search (black nodes have finished, and every edge out of a
  black node leads to a black node that finished earlier), the relation between the
  states before and after a call (black nodes are untouched, the grey nodes are the
  same, the clock does not go back), and what a call yields: a cycle error in a graph
  with a cycle, or a state that keeps the invariant.
\<close>

definition color_of :: "'a dfs_state \<Rightarrow> 'a \<Rightarrow> Color" where
  "color_of s v = (case nodes s v of None \<Rightarrow> WHITE | Some nd \<Rightarrow> color nd)"

definition finish_of :: "'a dfs_state \<Rightarrow> 'a \<Rightarrow> int option" where
  "finish_of s v = (case nodes s v of None \<Rightarrow> None | Some nd \<Rightarrow> finish nd)"

definition white :: "'a graph \<Rightarrow> 'a dfs_state \<Rightarrow> 'a set" where
  "white graph s = {v \<in> fst ` set graph. color_of s v = WHITE}"

definition dfs_inv :: "'a graph \<Rightarrow> 'a dfs_state \<Rightarrow> bool" where
  "dfs_inv graph s \<longleftrightarrow>
     dom (nodes s) = fst ` set graph \<and>
     (\<forall>v. color_of s v = BLACK \<longrightarrow> (\<exists>f. finish_of s v = Some f \<and> f \<le> time s)) \<and>
     (\<forall>u v. (u, v) \<in> edges graph \<longrightarrow> color_of s u = BLACK \<longrightarrow>
        color_of s v = BLACK \<and> (\<exists>fu fv. finish_of s u = Some fu \<and> finish_of s v = Some fv \<and> fv < fu))"

definition ext :: "'a dfs_state \<Rightarrow> 'a dfs_state \<Rightarrow> bool" where
  "ext s s' \<longleftrightarrow>
     (\<forall>v. color_of s v = BLACK \<longrightarrow> nodes s' v = nodes s v) \<and>
     (\<forall>v. color_of s' v = GRAY \<longleftrightarrow> color_of s v = GRAY) \<and>
     time s \<le> time s' \<and> dom (nodes s') = dom (nodes s)"

definition dfs_post :: "'a graph \<Rightarrow> 'a dfs_state \<Rightarrow> error + 'a dfs_state \<Rightarrow> bool" where
  "dfs_post graph s r \<longleftrightarrow>
     (r = Inl ValueError \<and> \<not> acyclic (edges graph)) \<or>
     (\<exists>s'. r = Inr s' \<and> dfs_inv graph s' \<and> ext s s')"

text \<open>A graph with a child that is not a key, and the cycle of the tests.\<close>

definition graph_lax :: "string graph" where
  "graph_lax = [(''a'', [''zz'', ''b'']), (''b'', [])]"

definition graph_cycle :: "string graph" where
  "graph_cycle = [(''a'', [''b'']), (''b'', [''c'']), (''c'', [''a''])]"

section \<open>Columns (cell\_header.py) and ColumnManager (helpers/column\_manager.py)\<close>

text \<open>
  A cell value is an integer or a text; Python's \<open>None\<close> is \<open>None\<close> of \<open>val option\<close>.
  \<open>nonish\<close> tests \<open>x is None\<close>, then \<open>np.isnan(x)\<close> inside a bare \<open>try\<close>, then
  \<open>x != x\<close>: of the values here only \<open>None\<close> is nonish (\<open>np.isnan\<close> is false of an
  integer and raises, caught, on a text; both equal themselves).
\<close>

datatype val = IntV int | StrV string

definition nonish :: "val option \<Rightarrow> bool" where
  "nonish x = (case x of None \<Rightarrow> True | Some (IntV n) \<Rightarrow> False | Some (StrV s) \<Rightarrow> False)"

definition default_or :: "val option \<Rightarrow> val option \<Rightarrow> val option" where
  "default_or x default_value = (if nonish x then default_value else x)"

definition CHECK_DATE_AVAILABILITY :: bool where
  "CHECK_DATE_AVAILABILITY = False"

definition MAX_DATE :: int where
  "MAX_DATE = 99999999"

text \<open>
  The column classes differ, for the table, in two hooks: \<open>available_on_date\<close>
  (overridden by \<open>ProtectedColumn\<close>) and \<open>key_init\<close> (overridden by \<open>ConstColumn\<close>).
  \<open>Column\<close>, \<open>FlatColumn\<close>, \<open>SimpleFormula\<close> and \<open>Waterfall\<close> keep both defaults.
\<close>

datatype col_kind = Plain | Protected | Const "val option"

record Column =
  name :: ColumnName
  column_dependencies :: "ColumnName list"
  kind :: col_kind

definition dependencies :: "Column \<Rightarrow> ColumnName list" where
  "dependencies c = column_dependencies c"

definition cell_dependencies :: "Column \<Rightarrow> CellAddr \<Rightarrow> CellAddr list" where
  "cell_dependencies c cell_addr = map (\<lambda>col. (fst cell_addr, col)) (dependencies c)"

definition available_on_date :: "Column \<Rightarrow> CellAddr \<Rightarrow> Date" where
  "available_on_date c cell_addr =
     (case kind c of Protected \<Rightarrow> fst cell_addr + 1 | _ \<Rightarrow> fst cell_addr)"

record ColumnManager =
  columns :: "(ColumnName \<times> Column) list"
  save_needed :: "ColumnName set"

definition cm_contains :: "ColumnManager \<Rightarrow> ColumnName \<Rightarrow> bool" where
  "cm_contains m col = (map_of (columns m) col \<noteq> None)"

text \<open>\<open>get_column\<close> records the name in \<open>save_needed\<close> before the dict lookup, which
  raises KeyError for a name that is not registered.\<close>

definition get_column ::
  "ColumnManager \<Rightarrow> ColumnName \<Rightarrow> (error \<times> ColumnManager) + (Column \<times> ColumnManager)" where
  "get_column m key =
     (let m' = m\<lparr>save_needed := insert key (save_needed m)\<rparr>
      in case map_of (columns m) key of
           None \<Rightarrow> Inl (KeyError, m')
         | Some c \<Rightarrow> Inr (c, m'))"

section \<open>Table (table.py)\<close>

text \<open>
  \<open>need_refresh\<close> is a \<open>defaultdict(set)\<close>: a column without an entry has the empty
  set. \<open>key_init_log\<close> is not a field of the source: it records every call of a
  column's \<open>key_init\<close> hook, so that statements about how often the hook runs can be
  made.
\<close>

record Table =
  table_readonly :: bool
  cells :: "(CellAddr, Date \<times> ColumnName, val) PageMaster"
  cm :: ColumnManager
  ds :: DateSet
  need_refresh :: "ColumnName \<Rightarrow> CellAddr set"
  key_init_log :: "(ColumnName \<times> CellAddr \<times> CellKey) list"

type_synonym 'r table_result = "(error \<times> Table) + ('r \<times> Table)"

text \<open>\<open>CellMaster._addr_to_page\<close>: \<open>"{}-{}".format(cell_addr.date // 100, cell_addr.col)\<close>;
  the string determines the pair.\<close>

definition cell_addr_to_page :: "CellAddr \<Rightarrow> Date \<times> ColumnName" where
  "cell_addr_to_page cell_addr = (fst cell_addr div 100, snd cell_addr)"

definition truthy :: "bool option \<Rightarrow> bool" where
  "truthy r = (case r of None \<Rightarrow> False | Some b \<Rightarrow> b)"

definition mark_refresh :: "Table \<Rightarrow> CellAddr \<Rightarrow> Table" where
  "mark_refresh t dep =
     t\<lparr>need_refresh := (need_refresh t)(snd dep := insert dep (need_refresh t (snd dep)))\<rparr>"

text \<open>
  \<open>set_cell_value\<close>. The branch taken when \<open>push_date\<close> reports a new key starts with
  \<open>for col, column in self.cm\<close>; \<open>ColumnManager\<close> defines neither \<open>__iter__\<close> nor
  \<open>__getitem__\<close>, so entering the branch raises TypeError.
\<close>

definition set_cell_value :: "Table \<Rightarrow> CellAddr \<Rightarrow> CellKey \<Rightarrow> val option \<Rightarrow> unit table_result" where
  "set_cell_value t cell_addr key v =
     (if table_readonly t then Inl (PermissionError, t)
      else if \<not> cm_contains (cm t) (snd cell_addr) then Inl (KeyError, t)
      else
        case push_date (ds t) (fst cell_addr) key of (new_key_encountered, ds') \<Rightarrow>
        let t1 = t\<lparr>ds := ds'\<rparr>
        in if truthy new_key_encountered then Inl (TypeError, t1)
           else
             case set_value (cells t1) cell_addr key v of
               Inl (e, c') \<Rightarrow> Inl (e, t1\<lparr>cells := c'\<rparr>)
             | Inr (_, c') \<Rightarrow>
                 (case get_column (cm t1) (snd cell_addr) of
                    Inl (e, m') \<Rightarrow> Inl (e, t1\<lparr>cells := c', cm := m'\<rparr>)
                  | Inr (column, m') \<Rightarrow>
                      Inr ((), foldl mark_refresh (t1\<lparr>cells := c', cm := m'\<rparr>)
                                 (cell_dependencies column cell_addr))))"

text \<open>\<open>key_init\<close>: \<open>pass\<close> by default; \<open>ConstColumn\<close> stores its constant through
  \<open>table.set_cell_value\<close>. Both return \<open>None\<close>.\<close>

definition key_init :: "Column \<Rightarrow> Table \<Rightarrow> CellAddr \<Rightarrow> CellKey \<Rightarrow> (val option) table_result" where
  "key_init c t cell_addr key =
     (let t' = t\<lparr>key_init_log := key_init_log t @ [(name c, cell_addr, key)]\<rparr>
      in case kind c of
           Const const \<Rightarrow>
             (case set_cell_value t' cell_addr key const of
                Inl et \<Rightarrow> Inl et
              | Inr (_, t'') \<Rightarrow> Inr (None, t''))
         | _ \<Rightarrow> Inr (None, t'))"

text \<open>The guard at the head of \<open>get_cell_value\<close>. \<open>and\<close> evaluates its right side, and
  with it \<open>get_column\<close>, only when \<open>check_date_availability\<close> holds. The KeyError
  with the message "Not available on date." is \<open>NotAvailable\<close>.\<close>

definition check_available :: "Table \<Rightarrow> CellAddr \<Rightarrow> int \<Rightarrow> bool \<Rightarrow> unit table_result" where
  "check_available t cell_addr assert_available_on check_date_availability =
     (if check_date_availability
      then (case get_column (cm t) (snd cell_addr) of
              Inl (e, m') \<Rightarrow> Inl (e, t\<lparr>cm := m'\<rparr>)
            | Inr (column, m') \<Rightarrow>
                if assert_available_on < available_on_date column cell_addr
                then Inl (NotAvailable, t\<lparr>cm := m'\<rparr>)
                else Inr ((), t\<lparr>cm := m'\<rparr>))
      else Inr ((), t))"

text \<open>
  \<open>get_cell_value\<close>. When the store has no value (\<open>get_value\<close> returned \<open>None\<close>) the
  column's \<open>key_init\<close> runs and its return value becomes the result; if that is
  \<open>None\<close>, the line \<open>result = NoneClass()\<close> is reached. No module of the program binds
  the name \<open>NoneClass\<close> (\<open>table.py\<close> imports \<open>pandas\<close> and, by \<open>import *\<close>,
  \<open>column_manager\<close>, \<open>date_set\<close>, \<open>page_master\<close>, which import \<open>cell_header\<close> and
  \<open>topological_sort\<close>), so the line raises NameError, before \<open>set_value\<close>.
\<close>

definition get_cell_value ::
  "Table \<Rightarrow> CellAddr \<Rightarrow> CellKey \<Rightarrow> int \<Rightarrow> bool \<Rightarrow> (val option) table_result" where
  "get_cell_value t cell_addr key assert_available_on check_date_availability =
     (case check_available t cell_addr assert_available_on check_date_availability of
        Inl et \<Rightarrow> Inl et
      | Inr (_, t0) \<Rightarrow>
          (case get_value (cells t0) cell_addr key of
             Inl (e, c') \<Rightarrow> Inl (e, t0\<lparr>cells := c'\<rparr>)
           | Inr (Some v, c') \<Rightarrow> Inr (Some v, t0\<lparr>cells := c'\<rparr>)
           | Inr (None, c') \<Rightarrow>
               (case get_column (cm t0) (snd cell_addr) of
                  Inl (e, m') \<Rightarrow> Inl (e, t0\<lparr>cells := c', cm := m'\<rparr>)
                | Inr (column, m') \<Rightarrow>
                    (case key_init column (t0\<lparr>cells := c', cm := m'\<rparr>) cell_addr key of
                       Inl et \<Rightarrow> Inl et
                     | Inr (None, t2) \<Rightarrow> Inl (NameError, t2)
                     | Inr (Some x, t2) \<Rightarrow>
                         (case set_value (cells t2) cell_addr key (Some x) of
                            Inl (e, c'') \<Rightarrow> Inl (e, t2\<lparr>cells := c''\<rparr>)
                          | Inr (_, c'') \<Rightarrow> Inr (Some x, t2\<lparr>cells := c''\<rparr>))))))"

text \<open>What a call hands to its caller: the exception or the returned value.\<close>

definition returned :: "(error \<times> 's) + ('r \<times> 's) \<Rightarrow> error + 'r" where
  "returned res = (case res of Inl (e, _) \<Rightarrow> Inl e | Inr (r, _) \<Rightarrow> Inr r)"

section \<open>States used in the statements\<close>

text \<open>
  The table that \<open>Table(prefix, readonly)\<close> builds, its cell store with the default
  cache size of 80 on a disk where writing succeeds, with the given columns registered. The refresh order kept by the
  column manager is the subject of the section on \<open>topological\<close> and is not part of
  the table state here. (In this revision \<open>Table.__init__\<close> passes \<open>readonly\<close> to
  \<open>DateSet\<close> and \<open>ColumnManager\<close>, whose constructors do not take it; the state below is
  the one those calls are written to build: an empty date index, an empty store, the
  columns as registered.)
\<close>

definition new_table :: "bool \<Rightarrow> (ColumnName \<times> Column) list \<Rightarrow> Table" where
  "new_table ro cols =
     \<lparr>table_readonly = ro,
      cells = \<lparr>readonly = ro, cache = [], cache_size = 80,
               addr_to_page = cell_addr_to_page, files = Map.empty,
               on_write = (\<lambda>_ _. Written)\<rparr>,
      cm = \<lparr>columns = cols, save_needed = {}\<rparr>,
      ds = \<lparr>dates_keys = Map.empty, dates = []\<rparr>,
      need_refresh = (\<lambda>_. {}),
      key_init_log = []\<rparr>"

definition state_after :: "(error \<times> 's) + ('r \<times> 's) \<Rightarrow> 's" where
  "state_after res = (case res of Inl (_, s) \<Rightarrow> s | Inr (_, s) \<Rightarrow> s)"

text \<open>The table of \<open>tests/test_table.py\<close>: columns A and B, B a dependent of A.\<close>

definition table_AB :: Table where
  "table_AB = new_table False
     [(''A'', \<lparr>name = ''A'', column_dependencies = [''B''], kind = Plain\<rparr>),
      (''B'', \<lparr>name = ''B'', column_dependencies = [], kind = Plain\<rparr>)]"

text \<open>A table with a plain column A and a protected column T, and the same table after
  \<open>set_cell_value(CellAddr(500, "T"), "key", 100)\<close>.\<close>

definition table_P :: Table where
  "table_P = new_table False
     [(''A'', \<lparr>name = ''A'', column_dependencies = [], kind = Plain\<rparr>),
      (''T'', \<lparr>name = ''T'', column_dependencies = [], kind = Protected\<rparr>)]"

definition table_P500 :: Table where
  "table_P500 = state_after (set_cell_value table_P (500, ''T'') ''key'' (Some (IntV 100)))"

text \<open>A table with one \<open>ConstColumn\<close> of constant 5.\<close>

definition table_const :: Table where
  "table_const = new_table False
     [(''C'', \<lparr>name = ''C'', column_dependencies = [], kind = Const (Some (IntV 5))\<rparr>)]"

section \<open>Sequences of store operations\<close>

text \<open>
  An access to a store is a \<open>get_value\<close> or a \<open>set_value\<close>; \<open>run_ops\<close> performs a
  sequence of them, going on after a call that raised, from the state the call left.
\<close>

datatype ('a, 'v) pm_op = GetValue 'a CellKey | SetValue 'a CellKey "'v option"

fun op_addr :: "('a, 'v) pm_op \<Rightarrow> 'a" where
  "op_addr (GetValue a k) = a"
| "op_addr (SetValue a k v) = a"

definition apply_op :: "('a, 'n, 'v) PageMaster \<Rightarrow> ('a, 'v) pm_op \<Rightarrow> ('a, 'n, 'v) PageMaster" where
  "apply_op pm op =
     (case op of
        GetValue a k \<Rightarrow> state_after (get_value pm a k)
      | SetValue a k v \<Rightarrow> state_after (set_value pm a k v))"

definition run_ops :: "('a, 'n, 'v) PageMaster \<Rightarrow> ('a, 'v) pm_op list \<Rightarrow> ('a, 'n, 'v) PageMaster" where
  "run_ops pm ops = foldl apply_op pm ops"

text \<open>The names of the resident pages, in cache order.\<close>

definition resident :: "('a, 'n, 'v) PageMaster \<Rightarrow> 'n list" where
  "resident pm = map fst (cache pm)"

text \<open>
  The spec's eviction policy, on page names: strict LRU by access. The accessed page
  becomes the most recently used, the others keep their order, and what exceeds the
  capacity falls off the least recently used end.
\<close>

definition lru_touch :: "int \<Rightarrow> 'n list \<Rightarrow> 'n \<Rightarrow> 'n list" where
  "lru_touch C names n = take (nat C) (n # filter (\<lambda>x. x \<noteq> n) names)"

text \<open>What \<open>_load_file\<close> yields for a page that can be loaded.\<close>

definition loaded :: "('a, 'n, 'v) PageMaster \<Rightarrow> 'n \<Rightarrow> ('a, 'v) page" where
  "loaded pm n = (case files pm n of Some (Pickled p) \<Rightarrow> p | _ \<Rightarrow> Map.empty)"

text \<open>Three stores of capacity 1 with the identity as paging. The first is empty and can
  be written. The second is the first on a disk where \<open>open(path, "wb")\<close> fails. The
  third is read-only, as \<open>PageMaster(prefix, cache_size=1, readonly=True)\<close>
  builds it, over a disk where the file of page 2 holds the value 7 for the key "k" of
  address 2.\<close>

definition store_small :: "(nat, nat, int) PageMaster" where
  "store_small = \<lparr>readonly = False, cache = [], cache_size = 1,
                   addr_to_page = (\<lambda>a. a), files = Map.empty,
                   on_write = (\<lambda>_ _. Written)\<rparr>"

definition store_unwritable :: "(nat, nat, int) PageMaster" where
  "store_unwritable = store_small\<lparr>on_write := (\<lambda>_ _. OpenFails)\<rparr>"

definition store_ro :: "(nat, nat, int) PageMaster" where
  "store_ro = \<lparr>readonly = True, cache = [], cache_size = 1,
                addr_to_page = (\<lambda>a. a),
                files = [2 \<mapsto> Pickled [(2, ''k'') \<mapsto> Some 7]],
                on_write = (\<lambda>_ _. Written)\<rparr>"

section \<open>Waterfall (derived\_columns.py)\<close>

text \<open>
  \<open>Table.all_keys_for_address\<close> reads \<open>self.ds.dates_keys[cell_addr.date]\<close>; on a
  \<open>defaultdict\<close> the read of a missing date inserts the empty set.
\<close>

definition all_keys_for_address :: "Table \<Rightarrow> CellAddr \<Rightarrow> CellKey list \<times> Table" where
  "all_keys_for_address t cell_addr =
     (case dates_keys (ds t) (fst cell_addr) of
        Some ks \<Rightarrow> (ks, t)
      | None \<Rightarrow> ([], t\<lparr>ds := (ds t)\<lparr>dates_keys := (dates_keys (ds t))(fst cell_addr \<mapsto> [])\<rparr>\<rparr>))"

text \<open>
  A snapshot is a \<open>defaultdict(int)\<close> from labels to running totals: an association
  list in insertion order, with distinct keys. A label is whatever \<open>get_cell_value\<close>
  returned. Reading a missing key yields 0 and inserts it (\<open>snap_read\<close>); \<open>+=\<close> and
  \<open>-=\<close> read, then store (\<open>snap_add\<close>).
\<close>

type_synonym Snapshot = "(val option \<times> int) list"

definition SNAPSHOT_KEY :: string where
  "SNAPSHOT_KEY = ''SNAPSHOT''"

definition snap_read :: "Snapshot \<Rightarrow> val option \<Rightarrow> int \<times> Snapshot" where
  "snap_read s k = (case map_of s k of Some v \<Rightarrow> (v, s) | None \<Rightarrow> (0, s @ [(k, 0)]))"

fun snap_update :: "Snapshot \<Rightarrow> val option \<Rightarrow> int \<Rightarrow> Snapshot" where
  "snap_update [] k v = [(k, v)]"
| "snap_update ((k', v') # s) k v =
     (if k' = k then (k', v) # s else (k', v') # snap_update s k v)"

definition snap_add :: "Snapshot \<Rightarrow> val option \<Rightarrow> int \<Rightarrow> Snapshot" where
  "snap_add s k v = (case snap_read s k of (old, s') \<Rightarrow> snap_update s' k (old + v))"

definition snap_add_all :: "Snapshot \<Rightarrow> Snapshot \<Rightarrow> Snapshot" where
  "snap_add_all s inc = foldl (\<lambda>s (k, v). snap_add s k v) s inc"

definition snap_sub_all :: "Snapshot \<Rightarrow> Snapshot \<Rightarrow> Snapshot" where
  "snap_sub_all s inc = foldl (\<lambda>s (k, v). snap_add s k (- v)) s inc"

text \<open>
  \<open>SnapshotMaster\<close>: a \<open>PageMaster\<close> addressed by dates, one page per date, with a
  cache of 5 pages. \<open>set_date_value\<close> writes through \<open>_get_page\<close> directly, without
  the read-only test of \<open>set_value\<close>. The snapshot handed out by \<open>get_date_value\<close>
  is modelled by its value.
\<close>

definition get_date_value ::
  "(Date, Date, Snapshot) PageMaster \<Rightarrow> Date \<Rightarrow> (Date, Date, Snapshot, Snapshot option) pm_result" where
  "get_date_value pm date = get_value pm date SNAPSHOT_KEY"

definition set_date_value ::
  "(Date, Date, Snapshot) PageMaster \<Rightarrow> Date \<Rightarrow> Snapshot \<Rightarrow> (Date, Date, Snapshot, unit) pm_result" where
  "set_date_value pm date v =
     (case get_page pm date of
        Inl ep \<Rightarrow> Inl ep
      | Inr (page, pm') \<Rightarrow> Inr ((), mutate_front pm' (addr_key date SNAPSHOT_KEY) (Some v)))"

text \<open>
  The fields of a \<open>Waterfall\<close> column that \<open>refresh\<close> uses. \<open>tail_length\<close> is
  \<open>tail_length_years * 10000\<close>; \<open>wf_readonly\<close> is \<open>self.readonly\<close>;
  \<open>snapshot_date_fn\<close> is the method \<open>_date_to_snapshot_date\<close>, which a subclass
  may override (\<open>MockWaterfall\<close> of the tests does). In the table's column manager the
  column is registered under \<open>wf_name\<close> with the default hooks.
\<close>

record Waterfall =
  wf_name :: ColumnName
  input_maps :: "(ColumnName \<times> ColumnName) list"
  output_key :: ColumnName
  tail_length :: int
  wf_readonly :: bool
  snapshot_master :: "(Date, Date, Snapshot) PageMaster"
  snapshot_dates :: DateSet
  snapshot_date_fn :: "Date \<Rightarrow> Date"

type_synonym 'r wf_result = "(error \<times> Waterfall \<times> Table) + ('r \<times> Waterfall \<times> Table)"

text \<open>\<open>Waterfall._date_to_snapshot_date\<close>: the start of the quarter. Python's \<open>//\<close>
  and \<open>%\<close> round towards minus infinity, as \<open>div\<close> and \<open>mod\<close> on \<open>int\<close> do.\<close>

definition date_to_snapshot_date :: "Date \<Rightarrow> Date" where
  "date_to_snapshot_date date =
     (let year_month = date div 100;
          year = year_month div 100;
          month = year_month mod 100;
          quarter = (month - 1) div 3;
          st_date = year * 10000 + (quarter * 3 + 1) * 100 + 1
      in st_date)"

text \<open>\<open>MockWaterfall._date_to_snapshot_date\<close> of \<open>tests/test_derived_columns.py\<close>:
  \<open>date // 100000 * 100000\<close>.\<close>

definition mock_date_to_snapshot_date :: "Date \<Rightarrow> Date" where
  "mock_date_to_snapshot_date date = date div 100000 * 100000"

text \<open>The column after \<open>__init__\<close> and \<open>open\<close>: no snapshot saved yet.\<close>

definition new_waterfall ::
  "ColumnName \<Rightarrow> (ColumnName \<times> ColumnName) list \<Rightarrow> ColumnName \<Rightarrow> int \<Rightarrow> (Date \<Rightarrow> Date) \<Rightarrow> Waterfall" where
  "new_waterfall nm maps out tail_length_years fn =
     \<lparr>wf_name = nm, input_maps = maps, output_key = out,
      tail_length = tail_length_years * 10000, wf_readonly = False,
      snapshot_master = \<lparr>readonly = False, cache = [], cache_size = 5,
                          addr_to_page = (\<lambda>d. d), files = Map.empty,
                          on_write = (\<lambda>_ _. Written)\<rparr>,
      snapshot_dates = \<lparr>dates_keys = Map.empty, dates = []\<rparr>,
      snapshot_date_fn = fn\<rparr>"

text \<open>
  \<open>_get_snapshot_increment\<close>: for every key of the date and every input map, the
  label read from the key column gets the value read from the value column added,
  \<open>default_or\<close> turning a nonish value into 0. Adding a text to the integer total
  is a TypeError.
\<close>

fun increment_maps ::
  "Table \<Rightarrow> Date \<Rightarrow> CellKey \<Rightarrow> (ColumnName \<times> ColumnName) list \<Rightarrow> Snapshot
     \<Rightarrow> (error \<times> Table) + (Snapshot \<times> Table)" where
  "increment_maps t date key [] result = Inr (result, t)"
| "increment_maps t date key (in_map # maps) result =
     (case get_cell_value t (date, fst in_map) key MAX_DATE CHECK_DATE_AVAILABILITY of
        Inl et \<Rightarrow> Inl et
      | Inr (None, t1) \<Rightarrow> increment_maps t1 date key maps result
      | Inr (Some l, t1) \<Rightarrow>
          (case snap_read result (Some l) of (old, result1) \<Rightarrow>
           case get_cell_value t1 (date, snd in_map) key MAX_DATE CHECK_DATE_AVAILABILITY of
             Inl et \<Rightarrow> Inl et
           | Inr (x, t2) \<Rightarrow>
               (case default_or x (Some (IntV 0)) of
                  Some (IntV n) \<Rightarrow>
                    increment_maps t2 date key maps (snap_update result1 (Some l) (old + n))
                | _ \<Rightarrow> Inl (TypeError, t2))))"

fun increment_keys ::
  "Table \<Rightarrow> Date \<Rightarrow> (ColumnName \<times> ColumnName) list \<Rightarrow> CellKey list \<Rightarrow> Snapshot
     \<Rightarrow> (error \<times> Table) + (Snapshot \<times> Table)" where
  "increment_keys t date maps [] result = Inr (result, t)"
| "increment_keys t date maps (key # keys) result =
     (case increment_maps t date key maps result of
        Inl et \<Rightarrow> Inl et
      | Inr (result1, t1) \<Rightarrow> increment_keys t1 date maps keys result1)"

definition get_snapshot_increment ::
  "Waterfall \<Rightarrow> Table \<Rightarrow> Date \<Rightarrow> (error \<times> Table) + (Snapshot \<times> Table)" where
  "get_snapshot_increment wfl t date =
     (case all_keys_for_address t (date, wf_name wfl) of (keys, t1) \<Rightarrow>
        increment_keys t1 date (input_maps wfl) keys [])"

text \<open>\<open>_save_snapshot\<close>: record the date, then store a deep copy of the snapshot.\<close>

definition save_snapshot ::
  "Waterfall \<Rightarrow> Date \<Rightarrow> Snapshot \<Rightarrow> (error \<times> Waterfall) + (unit \<times> Waterfall)" where
  "save_snapshot wfl date snapshot =
     (let wfl1 = wfl\<lparr>snapshot_dates := snd (push_date (snapshot_dates wfl) date SNAPSHOT_KEY)\<rparr>
      in case set_date_value (snapshot_master wfl1) date snapshot of
           Inl (e, pm') \<Rightarrow> Inl (e, wfl1\<lparr>snapshot_master := pm'\<rparr>)
         | Inr (_, pm') \<Rightarrow> Inr ((), wfl1\<lparr>snapshot_master := pm'\<rparr>))"

text \<open>The local function \<open>_expire_less_than\<close> of \<open>refresh\<close>: while the first
  window date is below \<open>d\<close>, subtract that date's increment and drop the date.\<close>

fun expire_less_than ::
  "Waterfall \<Rightarrow> Date \<Rightarrow> Date list \<Rightarrow> Snapshot \<Rightarrow> Table
     \<Rightarrow> (error \<times> Table) + ((Date list \<times> Snapshot) \<times> Table)" where
  "expire_less_than wfl d [] working_snapshot t = Inr (([], working_snapshot), t)"
| "expire_less_than wfl d (w # window_dates) working_snapshot t =
     (if w < d
      then (case get_snapshot_increment wfl t w of
              Inl et \<Rightarrow> Inl et
            | Inr (inc, t1) \<Rightarrow>
                expire_less_than wfl d window_dates (snap_sub_all working_snapshot inc) t1)
      else Inr ((w # window_dates, working_snapshot), t))"

text \<open>The inner \<open>while\<close> of \<open>refresh\<close>: every snapshot date at or before the
  next cell date is expired up to and saved.\<close>

fun save_due ::
  "Waterfall \<Rightarrow> Table \<Rightarrow> Date \<Rightarrow> Date list \<Rightarrow> Date list \<Rightarrow> Snapshot
     \<Rightarrow> ((Date list \<times> Date list \<times> Snapshot)) wf_result" where
  "save_due wfl t cell_date [] window_dates working_snapshot =
     Inr (([], window_dates, working_snapshot), wfl, t)"
| "save_due wfl t cell_date (next_snapshot_date # snapshot_dates_to_update) window_dates
       working_snapshot =
     (if next_snapshot_date \<le> cell_date
      then (case expire_less_than wfl (next_snapshot_date - tail_length wfl) window_dates
                   working_snapshot t of
              Inl (e, t1) \<Rightarrow> Inl (e, wfl, t1)
            | Inr ((window1, ws1), t1) \<Rightarrow>
                (case save_snapshot wfl next_snapshot_date ws1 of
                   Inl (e, wfl1) \<Rightarrow> Inl (e, wfl1, t1)
                 | Inr (_, wfl1) \<Rightarrow>
                     save_due wfl1 t1 cell_date snapshot_dates_to_update window1 ws1))
      else Inr ((next_snapshot_date # snapshot_dates_to_update, window_dates, working_snapshot),
                wfl, t))"

text \<open>The loop "Update this column": each key of the date gets the running total of
  its label.\<close>

fun write_cells ::
  "Waterfall \<Rightarrow> Table \<Rightarrow> Date \<Rightarrow> CellKey list \<Rightarrow> Snapshot
     \<Rightarrow> (error \<times> Table) + (Snapshot \<times> Table)" where
  "write_cells wfl t next_cell_date [] working_snapshot = Inr (working_snapshot, t)"
| "write_cells wfl t next_cell_date (k # ks) working_snapshot =
     (case get_cell_value t (next_cell_date, output_key wfl) k MAX_DATE CHECK_DATE_AVAILABILITY of
        Inl et \<Rightarrow> Inl et
      | Inr (key_in_snapshot, t1) \<Rightarrow>
          (case snap_read working_snapshot key_in_snapshot of (running_total, ws1) \<Rightarrow>
           case set_cell_value t1 (next_cell_date, wf_name wfl) k (Some (IntV running_total)) of
             Inl et \<Rightarrow> Inl et
           | Inr (_, t2) \<Rightarrow> write_cells wfl t2 next_cell_date ks ws1))"

text \<open>The outer \<open>while cell_dates_to_update\<close> of \<open>refresh\<close>.\<close>

fun refresh_loop ::
  "Waterfall \<Rightarrow> Table \<Rightarrow> Date list \<Rightarrow> Date list \<Rightarrow> Date list \<Rightarrow> Snapshot \<Rightarrow> unit wf_result" where
  "refresh_loop wfl t [] snapshot_dates_to_update window_dates working_snapshot = Inr ((), wfl, t)"
| "refresh_loop wfl t (next_cell_date # cell_dates_to_update) snapshot_dates_to_update
       window_dates working_snapshot =
     (case save_due wfl t next_cell_date snapshot_dates_to_update window_dates working_snapshot of
        Inl ewt \<Rightarrow> Inl ewt
      | Inr ((sdates1, window1, ws1), wfl1, t1) \<Rightarrow>
          (case expire_less_than wfl1 (next_cell_date - tail_length wfl1) (window1 @ [next_cell_date])
                  ws1 t1 of
             Inl (e, t2) \<Rightarrow> Inl (e, wfl1, t2)
           | Inr ((window2, ws2), t2) \<Rightarrow>
               (case all_keys_for_address t2 (next_cell_date, wf_name wfl1) of (keys, t3) \<Rightarrow>
                case write_cells wfl1 t3 next_cell_date keys ws2 of
                  Inl (e, t4) \<Rightarrow> Inl (e, wfl1, t4)
                | Inr (ws3, t4) \<Rightarrow>
                    (case get_snapshot_increment wfl1 t4 next_cell_date of
                       Inl (e, t5) \<Rightarrow> Inl (e, wfl1, t5)
                     | Inr (inc, t5) \<Rightarrow>
                         refresh_loop wfl1 t5 cell_dates_to_update sdates1 window2
                           (snap_add_all ws3 inc)))))"

text \<open>
  The head of \<open>refresh\<close>, lines "Look for the most recent snapshot": the index
  \<open>smallest_ind_gt_date(min_date) - 1\<close> is \<open>-1\<close> when no snapshot date is at or
  before \<open>min_date\<close>.
\<close>

definition refresh_start ::
  "Waterfall \<Rightarrow> Date \<Rightarrow> (error \<times> Waterfall) + ((Date \<times> Snapshot) \<times> Waterfall)" where
  "refresh_start wfl min_date =
     (let ind = smallest_ind_gt_date (snapshot_dates wfl) min_date
      in if int ind - 1 = - 1
         then Inr ((snapshot_date_fn wfl min_date, []), wfl)
         else
           let first_snapshot_date = dates (snapshot_dates wfl) ! (ind - 1)
           in case get_date_value (snapshot_master wfl) first_snapshot_date of
                Inl (e, pm') \<Rightarrow> Inl (e, wfl\<lparr>snapshot_master := pm'\<rparr>)
              | Inr (None, pm') \<Rightarrow> Inl (LookupError, wfl\<lparr>snapshot_master := pm'\<rparr>)
              | Inr (Some working_snapshot, pm') \<Rightarrow>
                  Inr ((first_snapshot_date, working_snapshot), wfl\<lparr>snapshot_master := pm'\<rparr>))"

text \<open>\<open>Waterfall.refresh\<close>. \<open>min\<close> of an empty dirty set is a ValueError.\<close>

definition refresh :: "Waterfall \<Rightarrow> Table \<Rightarrow> unit wf_result" where
  "refresh wfl t =
     (if wf_readonly wfl then Inr ((), wfl, t)
      else if need_refresh t (wf_name wfl) = {} then Inl (ValueError, wfl, t)
      else
        let min_date = Min (fst ` need_refresh t (wf_name wfl))
        in case refresh_start wfl min_date of
             Inl (e, wfl1) \<Rightarrow> Inl (e, wfl1, t)
           | Inr ((first_snapshot_date, working_snapshot), wfl1) \<Rightarrow>
               let window_st = first_snapshot_date - tail_length wfl1;
                   window_en = first_snapshot_date;
                   window_dates = slice (ds t) (Some window_st) (Some (window_en - 1));
                   cell_dates_to_update = slice (ds t) (Some first_snapshot_date) None;
                   snapshot_dates_to_update =
                     sort (remdups (map (snapshot_date_fn wfl1) cell_dates_to_update))
               in refresh_loop wfl1 t cell_dates_to_update snapshot_dates_to_update window_dates
                    working_snapshot)"

section \<open>The reference scenarios\<close>

text \<open>A sequence of \<open>set_cell_value\<close> calls, and the reads of one column at a list of
  dates.\<close>

definition write_all :: "Table \<Rightarrow> (CellAddr \<times> CellKey \<times> val option) list \<Rightarrow> Table" where
  "write_all t ws = foldl (\<lambda>t (a, k, v). state_after (set_cell_value t a k v)) t ws"

definition read_column :: "Table \<Rightarrow> ColumnName \<Rightarrow> CellKey \<Rightarrow> Date list \<Rightarrow> (error + val option) list" where
  "read_column t col key ds' =
     map (\<lambda>d. returned (get_cell_value t (d, col) key MAX_DATE CHECK_DATE_AVAILABILITY)) ds'"

text \<open>
  The scenario of \<open>test_expiry\<close>: label column Player1, metric column Points1 and
  the waterfall column, with the single key "row_1" and the label "X" at six dates; the
  last date has no metric value. The writes mark the waterfall column dirty at every
  date. The waterfall has a window of 3 years.
\<close>

definition expiry_table :: Table where
  "expiry_table = write_all
     (new_table False
        [(''Player1'', \<lparr>name = ''Player1'', column_dependencies = [''player1_wf''], kind = Plain\<rparr>),
         (''Points1'', \<lparr>name = ''Points1'', column_dependencies = [''player1_wf''], kind = Plain\<rparr>),
         (''player1_wf'', \<lparr>name = ''player1_wf'', column_dependencies = [], kind = Plain\<rparr>)])
     [((10000, ''Player1''), ''row_1'', Some (StrV ''X'')),
      ((10000, ''Points1''), ''row_1'', Some (IntV 1)),
      ((20000, ''Player1''), ''row_1'', Some (StrV ''X'')),
      ((20000, ''Points1''), ''row_1'', Some (IntV 20)),
      ((30000, ''Player1''), ''row_1'', Some (StrV ''X'')),
      ((30000, ''Points1''), ''row_1'', Some (IntV 300)),
      ((40000, ''Player1''), ''row_1'', Some (StrV ''X'')),
      ((40000, ''Points1''), ''row_1'', Some (IntV 4000)),
      ((50000, ''Player1''), ''row_1'', Some (StrV ''X'')),
      ((50000, ''Points1''), ''row_1'', Some (IntV 50000)),
      ((60000, ''Player1''), ''row_1'', Some (StrV ''X''))]"

definition expiry_wf :: "(Date \<Rightarrow> Date) \<Rightarrow> Waterfall" where
  "expiry_wf fn = new_waterfall ''player1_wf'' [(''Player1'', ''Points1'')] ''Player1'' 3 fn"



text \<open>The scenario of \<open>test_snapshot_saving\<close>, with a window of 100 years.\<close>

definition snapshot_table :: Table where
  "snapshot_table = write_all
     (new_table False
        [(''Player1'', \<lparr>name = ''Player1'', column_dependencies = [''player1_wf''], kind = Plain\<rparr>),
         (''Points1'', \<lparr>name = ''Points1'', column_dependencies = [''player1_wf''], kind = Plain\<rparr>),
         (''player1_wf'', \<lparr>name = ''player1_wf'', column_dependencies = [], kind = Plain\<rparr>)])
     [((50000, ''Player1''), ''row_1'', Some (StrV ''X'')),
      ((50000, ''Points1''), ''row_1'', Some (IntV 1)),
      ((150000, ''Player1''), ''row_1'', Some (StrV ''X'')),
      ((150000, ''Points1''), ''row_1'', Some (IntV 20)),
      ((180000, ''Player1''), ''row_1'', Some (StrV ''X'')),
      ((180000, ''Points1''), ''row_1'', Some (IntV 300)),
      ((220000, ''Player1''), ''row_1'', Some (StrV ''X'')),
      ((220000, ''Points1''), ''row_1'', Some (IntV 4000)),
      ((250000, ''Player1''), ''row_1'', Some (StrV ''X'')),
      ((250000, ''Points1''), ''row_1'', Some (IntV 50000)),
      ((300000, ''Player1''), ''row_1'', Some (StrV ''X'')),
      ((300000, ''Points1''), ''row_1'', Some (IntV 600000))]"

definition snapshot_wf :: "(Date \<Rightarrow> Date) \<Rightarrow> Waterfall" where
  "snapshot_wf fn = new_waterfall ''player1_wf'' [(''Player1'', ''Points1'')] ''Player1'' 100 fn"



section \<open>Supporting lemmas\<close>

lemmas table_eval_defs =
  new_table_def set_cell_value_def cm_contains_def push_date_def
  add_key_def truthy_def set_value_def get_value_def get_page_def load_new_page_def load_file_def
  mutate_front_def get_column_def cell_dependencies_def dependencies_def mark_refresh_def
  returned_def state_after_def cell_addr_to_page_def addr_key_def Let_def
  get_cell_value_def check_available_def available_on_date_def key_init_def

lemma pm_no_NotAvailable_get_page: "get_page pm a = Inl (e, pm') \<Longrightarrow> e \<noteq> NotAvailable"
  by (auto simp: get_page_def load_new_page_def load_file_def save_single_page_def save_file_def Let_def
      split: option.splits sum.splits stored_file.splits if_splits prod.splits write_outcome.splits)

lemma set_value_no_NotAvailable: "set_value pm a k v = Inl (e, pm') \<Longrightarrow> e \<noteq> NotAvailable"
  by (auto simp: set_value_def dest: pm_no_NotAvailable_get_page split: if_splits sum.splits prod.splits)

lemma get_value_Inr: "\<exists>r pm'. get_value pm a k = Inr (r, pm')"
  by (auto simp: get_value_def split: sum.splits prod.splits option.splits)

lemma get_column_no_NotAvailable: "get_column m k = Inl (e, m') \<Longrightarrow> e \<noteq> NotAvailable"
  by (auto simp: get_column_def Let_def split: option.splits)

lemma push_date_None: "fst (push_date dset date cell_key) = None"
  by (simp add: push_date_def Let_def)

lemma set_cell_value_no_NotAvailable: "set_cell_value t a k v = Inl (e, t') \<Longrightarrow> e \<noteq> NotAvailable"
  by (auto simp: set_cell_value_def Let_def dest: set_value_no_NotAvailable get_column_no_NotAvailable
      split: if_splits sum.splits prod.splits)

lemma key_init_no_NotAvailable: "key_init c t a k = Inl (e, t') \<Longrightarrow> e \<noteq> NotAvailable"
  by (auto simp: key_init_def Let_def dest: set_cell_value_no_NotAvailable
      split: col_kind.splits sum.splits prod.splits)

lemma cache_index_of_Some:
  "cache_index_of n cs = Some i \<Longrightarrow> i < length cs \<and> fst (cs ! i) = n"
  by (induction cs arbitrary: i) (auto split: if_splits)

lemma cache_index_of_None: "cache_index_of n cs = None \<longleftrightarrow> n \<notin> fst ` set cs"
  by (induction cs) auto

lemma cache_index_of_filter:
  "distinct (map fst cs) \<Longrightarrow> cache_index_of n cs = Some i \<Longrightarrow>
   take i cs @ drop (Suc i) cs = filter (\<lambda>c. fst c \<noteq> n) cs"
proof (induction cs arbitrary: i)
  case Nil
  then show ?case by simp
next
  case (Cons c cs)
  show ?case
  proof (cases "fst c = n")
    case True
    with Cons.prems have "i = 0" and "n \<notin> fst ` set cs" by auto
    then have "filter (\<lambda>c. fst c \<noteq> n) cs = cs" by (auto simp: filter_id_conv)
    with True \<open>i = 0\<close> show ?thesis by simp
  next
    case False
    with Cons.prems obtain j where "i = Suc j" "cache_index_of n cs = Some j" by auto
    with Cons.IH [of j] Cons.prems(1) False show ?thesis by simp
  qed
qed

lemma get_page_hit:
  assumes "distinct (map fst (cache pm))" "addr_to_page pm a \<in> fst ` set (cache pm)"
  shows "\<exists>p. get_page pm a
           = Inr (p, pm\<lparr>cache := (addr_to_page pm a, p)
                               # filter (\<lambda>c. fst c \<noteq> addr_to_page pm a) (cache pm)\<rparr>)"
proof -
  from assms(2) obtain i where i: "cache_index_of (addr_to_page pm a) (cache pm) = Some i"
    using cache_index_of_None [of "addr_to_page pm a" "cache pm"] by (cases "cache_index_of (addr_to_page pm a) (cache pm)") auto
  from cache_index_of_Some [OF i] have "cache pm ! i = (addr_to_page pm a, snd (cache pm ! i))"
    by (simp add: prod_eq_iff)
  with cache_index_of_filter [OF assms(1) i] i show ?thesis
    by (auto simp: get_page_def)
qed

lemma get_page_miss:
  assumes "\<not> readonly pm" "addr_to_page pm a \<notin> fst ` set (cache pm)"
      "files pm (addr_to_page pm a) \<noteq> Some Malformed"
      "\<forall>n p. on_write pm n p = Written"
  shows "get_page pm a
           = Inr (loaded pm (addr_to_page pm a),
                  if int (length (cache pm)) + 1 > cache_size pm
                  then pm\<lparr>cache := slice_to ((addr_to_page pm a, loaded pm (addr_to_page pm a)) # cache pm)
                                      (cache_size pm),
                          files := (files pm)
                            (fst (last ((addr_to_page pm a, loaded pm (addr_to_page pm a)) # cache pm))
                               \<mapsto> Pickled (snd (last ((addr_to_page pm a, loaded pm (addr_to_page pm a)) # cache pm))))\<rparr>
                  else pm\<lparr>cache := (addr_to_page pm a, loaded pm (addr_to_page pm a)) # cache pm\<rparr>)"
proof -
  have "cache_index_of (addr_to_page pm a) (cache pm) = None"
    using assms(2) by (simp add: cache_index_of_None)
  with assms(1,3,4) show ?thesis
    by (auto simp: get_page_def load_new_page_def load_file_def save_single_page_def save_file_def
          Let_def loaded_def last_conv_nth
        split: option.splits stored_file.splits)
qed

lemma get_page_fail:
  assumes "addr_to_page pm a \<notin> fst ` set (cache pm)"
      "files pm (addr_to_page pm a) = Some Malformed"
  shows "get_page pm a = Inl (UnpicklingError, pm)"
proof -
  have "cache_index_of (addr_to_page pm a) (cache pm) = None"
    using assms(1) by (simp add: cache_index_of_None)
  with assms(2) show ?thesis
    by (simp add: get_page_def load_new_page_def load_file_def)
qed


lemma resident_filter:
  "map fst (filter (\<lambda>c. fst c \<noteq> n) cs) = filter (\<lambda>x. x \<noteq> n) (map fst cs)"
  by (induction cs) auto

lemma touch_hit:
  assumes inv: "int (length (cache pm)) \<le> cache_size pm" "distinct (resident pm)"
      and hit: "addr_to_page pm a \<in> set (resident pm)"
  shows "\<exists>p. get_page pm a
           = Inr (p, pm\<lparr>cache := (addr_to_page pm a, p)
                               # filter (\<lambda>c. fst c \<noteq> addr_to_page pm a) (cache pm)\<rparr>)"
    and "resident (state_after (get_page pm a))
           = lru_touch (cache_size pm) (resident pm) (addr_to_page pm a)"
    and "files (state_after (get_page pm a)) = files pm"
    and "set (tl (cache (state_after (get_page pm a)))) \<subseteq> set (cache pm)"
proof -
  let ?n = "addr_to_page pm a"
  from get_page_hit [of pm a] inv(2) hit obtain p where
    gp: "get_page pm a = Inr (p, pm\<lparr>cache := (?n, p) # filter (\<lambda>c. fst c \<noteq> ?n) (cache pm)\<rparr>)"
    by (auto simp: resident_def)
  then show "\<exists>p. get_page pm a
           = Inr (p, pm\<lparr>cache := (?n, p) # filter (\<lambda>c. fst c \<noteq> ?n) (cache pm)\<rparr>)" by blast
  have "length (filter (\<lambda>x. x \<noteq> ?n) (resident pm)) < length (resident pm)"
    using hit by (intro length_filter_less) auto
  with inv(1) have "length (?n # filter (\<lambda>x. x \<noteq> ?n) (resident pm)) \<le> nat (cache_size pm)"
    by (simp add: resident_def)
  then show "resident (state_after (get_page pm a)) = lru_touch (cache_size pm) (resident pm) ?n"
    by (simp add: gp state_after_def resident_def lru_touch_def resident_filter)
  show "files (state_after (get_page pm a)) = files pm"
    by (simp add: gp state_after_def)
  show "set (tl (cache (state_after (get_page pm a)))) \<subseteq> set (cache pm)"
    by (auto simp: gp state_after_def)
qed

lemma touch_miss:
  assumes wr: "\<not> readonly pm"
      and wok: "\<forall>n p. on_write pm n p = Written"
      and inv: "int (length (cache pm)) \<le> cache_size pm"
      and miss: "addr_to_page pm a \<notin> set (resident pm)"
      and ld: "files pm (addr_to_page pm a) \<noteq> Some Malformed"
  shows "resident (state_after (get_page pm a))
           = lru_touch (cache_size pm) (resident pm) (addr_to_page pm a)"
    and "int (length (cache pm)) = cache_size pm \<Longrightarrow>
           resident (state_after (get_page pm a)) = butlast (addr_to_page pm a # resident pm) \<and>
           files (state_after (get_page pm a))
             = (files pm)(last (addr_to_page pm a # resident pm)
                  \<mapsto> Pickled (snd (last ((addr_to_page pm a, loaded pm (addr_to_page pm a)) # cache pm))))"
    and "int (length (cache pm)) \<noteq> cache_size pm \<Longrightarrow>
           files (state_after (get_page pm a)) = files pm"
    and "set (tl (cache (state_after (get_page pm a)))) \<subseteq> set (cache pm)"
    and "\<exists>p s. get_page pm a = Inr (p, s)"
proof -
  let ?n = "addr_to_page pm a"
  let ?new = "(?n, loaded pm ?n)"
  have m: "?n \<notin> fst ` set (cache pm)" using miss by (simp add: resident_def)
  note gp = get_page_miss [OF wr m ld wok]
  have fid: "filter (\<lambda>x. x \<noteq> ?n) (resident pm) = resident pm"
    using miss by (auto simp: filter_id_conv)
  have C0: "0 \<le> cache_size pm" using inv by linarith
  have tm: "map fst (take k (?new # cache pm)) = take k (?n # map fst (cache pm))" for k
    using take_map [of k fst "?new # cache pm"] by simp
  show "\<exists>p s. get_page pm a = Inr (p, s)" using gp by blast
  show "resident (state_after (get_page pm a)) = lru_touch (cache_size pm) (resident pm) ?n"
  proof (cases "int (length (cache pm)) + 1 > cache_size pm")
    case True
    with C0 show ?thesis
      by (simp add: gp state_after_def resident_def lru_touch_def fid [unfolded resident_def]
          slice_to_def tm)
  next
    case False
    then have "length (?n # resident pm) \<le> nat (cache_size pm)" by (simp add: resident_def)
    with False show ?thesis
      by (simp add: gp state_after_def resident_def lru_touch_def fid [unfolded resident_def])
  qed
  show "resident (state_after (get_page pm a)) = butlast (?n # resident pm) \<and>
        files (state_after (get_page pm a))
          = (files pm)(last (?n # resident pm) \<mapsto> Pickled (snd (last (?new # cache pm))))"
    if eq: "int (length (cache pm)) = cache_size pm"
  proof -
    have "nat (cache_size pm) = length (cache pm)" using eq by simp
    then have "take (nat (cache_size pm)) (?new # cache pm) = butlast (?new # cache pm)"
      by (simp add: butlast_conv_take)
    moreover have "fst (last (?new # cache pm)) = last (?n # resident pm)"
      by (simp add: resident_def last_map)
    moreover have "map fst (butlast (?new # cache pm)) = butlast (?n # resident pm)"
      by (simp add: resident_def map_butlast)
    ultimately show ?thesis
      using eq C0 by (simp add: gp state_after_def resident_def slice_to_def)
  qed
  show "files (state_after (get_page pm a)) = files pm"
    if "int (length (cache pm)) \<noteq> cache_size pm"
    using that inv by (simp add: gp state_after_def)
  show "set (tl (cache (state_after (get_page pm a)))) \<subseteq> set (cache pm)"
    using C0 by (auto simp: gp state_after_def slice_to_def take_Cons' dest: in_set_takeD)
qed

lemma touch_fields:
  "readonly (state_after (get_page pm a)) = readonly pm \<and>
   cache_size (state_after (get_page pm a)) = cache_size pm \<and>
   addr_to_page (state_after (get_page pm a)) = addr_to_page pm \<and>
   on_write (state_after (get_page pm a)) = on_write pm"
  by (auto simp: get_page_def load_new_page_def load_file_def save_single_page_def save_file_def
        Let_def state_after_def
      split: option.splits stored_file.splits sum.splits prod.splits write_outcome.splits)

lemma apply_op_view:
  assumes "\<not> readonly pm"
  shows "resident (apply_op pm op) = resident (state_after (get_page pm (op_addr op)))"
    and "files (apply_op pm op) = files (state_after (get_page pm (op_addr op)))"
    and "tl (cache (apply_op pm op)) = tl (cache (state_after (get_page pm (op_addr op))))"
    and "readonly (apply_op pm op) = readonly pm"
    and "cache_size (apply_op pm op) = cache_size pm"
    and "addr_to_page (apply_op pm op) = addr_to_page pm"
    and "get_page pm (op_addr op) = Inl (e, s) \<Longrightarrow> apply_op pm op = s"
    and "on_write (apply_op pm op) = on_write pm"
  using assms touch_fields [of pm "op_addr op"]
  by (cases op; auto simp: apply_op_def get_value_def set_value_def state_after_def resident_def
        mutate_front_def
      split: sum.splits prod.splits list.splits)+


lemma lru_touch_inv:
  assumes "distinct names" "0 \<le> C"
  shows "distinct (lru_touch C names n)" and "int (length (lru_touch C names n)) \<le> C"
  using assms by (simp_all add: lru_touch_def distinct_take)

lemma apply_op_inv:
  assumes wr: "\<not> readonly pm"
      and wok: "\<forall>n p. on_write pm n p = Written"
      and inv: "int (length (cache pm)) \<le> cache_size pm" "distinct (resident pm)"
  shows "int (length (cache (apply_op pm op))) \<le> cache_size pm \<and>
         distinct (resident (apply_op pm op))"
proof -
  let ?a = "op_addr op"
  let ?n = "addr_to_page pm ?a"
  have C0: "0 \<le> cache_size pm" using inv(1) by linarith
  have len: "length (cache s) = length (resident s)" for s :: "('a, 'b, 'c) PageMaster"
    by (simp add: resident_def)
  consider (hit) "?n \<in> set (resident pm)"
    | (miss) "?n \<notin> set (resident pm)" "files pm ?n \<noteq> Some Malformed"
    | (fail) "?n \<notin> set (resident pm)" "files pm ?n = Some Malformed"
    by blast
  then show ?thesis
  proof cases
    case hit
    from touch_hit(2) [OF inv hit] apply_op_view(1) [OF wr, of op]
    have "resident (apply_op pm op) = lru_touch (cache_size pm) (resident pm) ?n" by simp
    with lru_touch_inv [OF inv(2) C0, of ?n] show ?thesis by (simp add: len)
  next
    case miss
    from touch_miss(1) [OF wr wok inv(1) miss] apply_op_view(1) [OF wr, of op]
    have "resident (apply_op pm op) = lru_touch (cache_size pm) (resident pm) ?n" by simp
    with lru_touch_inv [OF inv(2) C0, of ?n] show ?thesis by (simp add: len)
  next
    case fail
    then have "get_page pm ?a = Inl (UnpicklingError, pm)"
      by (intro get_page_fail) (simp_all add: resident_def)
    from apply_op_view(7) [OF wr this] inv show ?thesis by simp
  qed
qed

lemma run_ops_snoc: "run_ops pm (ops @ [op]) = apply_op (run_ops pm ops) op"
  by (simp add: run_ops_def)

lemma run_ops_inv:
  assumes "\<not> readonly pm" "int (length (cache pm)) \<le> cache_size pm" "distinct (resident pm)"
      "\<forall>n p. on_write pm n p = Written"
  shows "\<not> readonly (run_ops pm ops) \<and> cache_size (run_ops pm ops) = cache_size pm \<and>
         addr_to_page (run_ops pm ops) = addr_to_page pm \<and>
         on_write (run_ops pm ops) = on_write pm \<and>
         int (length (cache (run_ops pm ops))) \<le> cache_size pm \<and>
         distinct (resident (run_ops pm ops))"
proof (induction ops rule: rev_induct)
  case Nil
  with assms show ?case by (simp add: run_ops_def)
next
  case (snoc op ops)
  then have wr: "\<not> readonly (run_ops pm ops)"
    and wok: "\<forall>n p. on_write (run_ops pm ops) n p = Written"
    using assms(4) by simp_all
  from snoc apply_op_inv [OF wr wok, of op] apply_op_view(4,5,6,8) [OF wr, of op]
  show ?case by (simp add: run_ops_snoc)
qed

declare smallest_ind_gt_date_from.simps [simp del]





lemma ext_refl: "ext s s"
  by (simp add: ext_def)

lemma ext_trans: "ext s s' \<Longrightarrow> ext s' s'' \<Longrightarrow> ext s s''"
  unfolding ext_def color_of_def by (auto split: option.splits)

lemma ext_black: "ext s s' \<Longrightarrow> color_of s v = BLACK \<Longrightarrow> color_of s' v = BLACK"
  by (simp add: ext_def color_of_def)

lemma ext_white: "ext s s' \<Longrightarrow> white graph s' \<subseteq> white graph s"
proof
  fix x assume e: "ext s s'" and x: "x \<in> white graph s'"
  then have k: "x \<in> fst ` set graph" and w: "color_of s' x = WHITE" by (simp_all add: white_def)
  have "color_of s x \<noteq> BLACK" using ext_black [OF e, of x] w by auto
  moreover have "color_of s x \<noteq> GRAY"
  proof
    assume "color_of s x = GRAY"
    with e have "color_of s' x = GRAY" by (simp add: ext_def)
    with w show False by simp
  qed
  ultimately have "color_of s x = WHITE" by (cases "color_of s x") auto
  with k show "x \<in> white graph s" by (simp add: white_def)
qed

lemma white_card_mono: "ext s s' \<Longrightarrow> card (white graph s') \<le> card (white graph s)"
  by (intro card_mono ext_white) (simp add: white_def)

lemma set_start_simps:
  assumes "nodes s v = Some nd"
  shows "color_of (set_start v s) x = (if x = v then GRAY else color_of s x)"
    and "finish_of (set_start v s) x = finish_of s x"
    and "time (set_start v s) = time s + 1"
    and "dom (nodes (set_start v s)) = dom (nodes s)"
    and "x \<noteq> v \<Longrightarrow> nodes (set_start v s) x = nodes s x"
  using assms by (auto simp: set_start_def color_of_def finish_of_def split: option.splits)

lemma set_finish_simps:
  assumes "nodes s v = Some nd"
  shows "color_of (set_finish v s) x = (if x = v then BLACK else color_of s x)"
    and "finish_of (set_finish v s) x = (if x = v then Some (time s + 1) else finish_of s x)"
    and "time (set_finish v s) = time s + 1"
    and "dom (nodes (set_finish v s)) = dom (nodes s)"
    and "x \<noteq> v \<Longrightarrow> nodes (set_finish v s) x = nodes s x"
  using assms by (auto simp: set_finish_def color_of_def finish_of_def split: option.splits)

lemma white_set_start:
  assumes "nodes s v = Some nd" "color_of s v = WHITE" "v \<in> fst ` set graph"
  shows "card (white graph (set_start v s)) < card (white graph s)"
proof -
  have "white graph (set_start v s) = white graph s - {v}"
    using assms(1) by (auto simp: white_def set_start_simps [OF assms(1)])
  moreover have "v \<in> white graph s" using assms by (simp add: white_def)
  moreover have "finite (white graph s)" by (simp add: white_def)
  ultimately show ?thesis by (metis card_Diff1_less)
qed

lemma edges_deps:
  assumes "distinct (map fst graph)" "map_of graph v = Some deps"
  shows "(v, w) \<in> edges graph \<longleftrightarrow> w \<in> set deps \<and> w \<in> fst ` set graph"
proof -
  have "\<And>ds. (v, ds) \<in> set graph \<longleftrightarrow> ds = deps"
    using assms by (metis map_of_is_SomeI map_of_SomeD option.inject)
  then show ?thesis by (auto simp: edges_def)
qed


lemma dfs_postE:
  assumes "dfs_post graph s r"
  obtains (fail) "r = Inl ValueError" "\<not> acyclic (edges graph)"
        | (ok) s' where "r = Inr s'" "dfs_inv graph s'" "ext s s'"
  using assms unfolding dfs_post_def by blast

lemma dfs_post_fail: "r = Inl ValueError \<Longrightarrow> \<not> acyclic (edges graph) \<Longrightarrow> dfs_post graph s r"
  by (simp add: dfs_post_def)

lemma dfs_post_ok: "r = Inr s' \<Longrightarrow> dfs_inv graph s' \<Longrightarrow> ext s s' \<Longrightarrow> dfs_post graph s r"
  by (simp add: dfs_post_def)

lemma inv_node: "dfs_inv graph s \<Longrightarrow> v \<in> fst ` set graph \<Longrightarrow> \<exists>nd. nodes s v = Some nd"
  unfolding dfs_inv_def by blast

lemma inv_no_node: "dfs_inv graph s \<Longrightarrow> nodes s v = None \<Longrightarrow> v \<notin> fst ` set graph"
  unfolding dfs_inv_def by blast

lemma inv_is_key: "dfs_inv graph s \<Longrightarrow> nodes s v = Some nd \<Longrightarrow> v \<in> fst ` set graph"
  unfolding dfs_inv_def by blast

lemma inv_set_start:
  assumes inv: "dfs_inv graph s" and nd: "nodes s v = Some nd" and w: "color_of s v = WHITE"
  shows "dfs_inv graph (set_start v s)"
  unfolding dfs_inv_def
proof (intro conjI allI impI)
  note ss = set_start_simps [OF nd]
  show "dom (nodes (set_start v s)) = fst ` set graph"
    using inv by (simp add: ss dfs_inv_def)
  fix x assume "color_of (set_start v s) x = BLACK"
  then have "color_of s x = BLACK" by (simp add: ss split: if_splits)
  with inv obtain f where "finish_of s x = Some f" "f \<le> time s" unfolding dfs_inv_def by blast
  then show "\<exists>f. finish_of (set_start v s) x = Some f \<and> f \<le> time (set_start v s)"
    by (simp add: ss)
next
  note ss = set_start_simps [OF nd]
  fix a b assume e: "(a, b) \<in> edges graph" and "color_of (set_start v s) a = BLACK"
  then have "color_of s a = BLACK" by (simp add: ss split: if_splits)
  with inv e have b: "color_of s b = BLACK"
    and f: "\<exists>fu fv. finish_of s a = Some fu \<and> finish_of s b = Some fv \<and> fv < fu"
    unfolding dfs_inv_def by blast+
  from b w have "b \<noteq> v" by auto
  with b show "color_of (set_start v s) b = BLACK" by (simp add: ss)
  from f show "\<exists>fu fv. finish_of (set_start v s) a = Some fu \<and> finish_of (set_start v s) b = Some fv \<and> fv < fu"
    by (simp add: ss)
qed

lemma inv_set_finish:
  assumes dg: "distinct (map fst graph)"
      and inv: "dfs_inv graph s" and nd: "nodes s v = Some nd" and g: "color_of s v = GRAY"
      and deps: "map_of graph v = Some deps"
      and blk: "\<forall>d \<in> set deps. d \<in> fst ` set graph \<longrightarrow> color_of s d = BLACK"
  shows "dfs_inv graph (set_finish v s)"
  unfolding dfs_inv_def
proof (intro conjI allI impI)
  note sf = set_finish_simps [OF nd]
  show "dom (nodes (set_finish v s)) = fst ` set graph"
    using inv by (simp add: sf dfs_inv_def)
  fix x assume x: "color_of (set_finish v s) x = BLACK"
  show "\<exists>f. finish_of (set_finish v s) x = Some f \<and> f \<le> time (set_finish v s)"
  proof (cases "x = v")
    case True
    then show ?thesis by (simp add: sf)
  next
    case False
    with x have "color_of s x = BLACK" by (simp add: sf)
    with inv obtain f where "finish_of s x = Some f" "f \<le> time s" unfolding dfs_inv_def by blast
    with False show ?thesis by (simp add: sf)
  qed
next
  note sf = set_finish_simps [OF nd]
  fix a b assume e: "(a, b) \<in> edges graph" and a: "color_of (set_finish v s) a = BLACK"
  have "color_of s b = BLACK \<and> b \<noteq> v \<and>
        (\<exists>fu fv. finish_of (set_finish v s) a = Some fu \<and> finish_of s b = Some fv \<and> fv < fu)"
  proof (cases "a = v")
    case True
    with e edges_deps [OF dg deps] have "b \<in> set deps" "b \<in> fst ` set graph" by auto
    with blk have b: "color_of s b = BLACK" by blast
    with g have bv: "b \<noteq> v" by auto
    from inv b obtain f where "finish_of s b = Some f" "f \<le> time s" unfolding dfs_inv_def by blast
    with True b bv show ?thesis by (simp add: sf)
  next
    case False
    with a have "color_of s a = BLACK" by (simp add: sf)
    with inv e have b: "color_of s b = BLACK"
      and f: "\<exists>fu fv. finish_of s a = Some fu \<and> finish_of s b = Some fv \<and> fv < fu"
      unfolding dfs_inv_def by blast+
    from b g have "b \<noteq> v" by auto
    with b f False show ?thesis by (simp add: sf)
  qed
  then show "color_of (set_finish v s) b = BLACK"
    and "\<exists>fu fv. finish_of (set_finish v s) a = Some fu \<and> finish_of (set_finish v s) b = Some fv \<and> fv < fu"
    by (auto simp: sf)
qed

lemma ext_start_finish:
  assumes nd: "nodes s v = Some nd" and w: "color_of s v = WHITE"
      and e: "ext (set_start v s) s2"
  shows "ext s (set_finish v s2)" and "color_of (set_finish v s2) v = BLACK"
proof -
  note ss = set_start_simps [OF nd]
  from e have dom2: "dom (nodes s2) = dom (nodes s)" by (simp add: ext_def ss)
  with nd obtain nd2 where nd2: "nodes s2 v = Some nd2" by (metis domI domD)
  note sf = set_finish_simps [OF nd2]
  show "color_of (set_finish v s2) v = BLACK" by (simp add: sf)
  show "ext s (set_finish v s2)"
    unfolding ext_def
  proof (intro conjI allI impI)
    fix x assume b: "color_of s x = BLACK"
    with w have xv: "x \<noteq> v" by auto
    with b have "color_of (set_start v s) x = BLACK" by (simp add: ss)
    with e have "nodes s2 x = nodes (set_start v s) x" by (simp add: ext_def)
    with xv show "nodes (set_finish v s2) x = nodes s x" by (simp add: sf ss)
  next
    fix x
    show "color_of (set_finish v s2) x = GRAY \<longleftrightarrow> color_of s x = GRAY"
    proof (cases "x = v")
      case True
      with w show ?thesis by (simp add: sf)
    next
      case False
      with e have "color_of s2 x = GRAY \<longleftrightarrow> color_of s x = GRAY" by (simp add: ext_def ss)
      with False show ?thesis by (simp add: sf)
    qed
  next
    from e show "time s \<le> time (set_finish v s2)" by (simp add: ext_def ss sf)
    show "dom (nodes (set_finish v s2)) = dom (nodes s)" by (simp add: sf dom2)
  qed
qed


lemma dfs_correct:
  shows "\<lbrakk>distinct (map fst graph); dfs_inv graph s; v \<in> fst ` set graph; color_of s v \<noteq> BLACK;
          card (white graph s) < depth;
          \<forall>x. color_of s x = GRAY \<longrightarrow> (x, v) \<in> (edges graph)\<^sup>+\<rbrakk>
         \<Longrightarrow> dfs_post graph s (dfs depth graph v s) \<and>
             (\<forall>s'. dfs depth graph v s = Inr s' \<longrightarrow> color_of s' v = BLACK)"
    and "\<lbrakk>distinct (map fst graph); dfs_inv graph s; u \<in> fst ` set graph;
          \<forall>d \<in> set deps. d \<in> fst ` set graph \<longrightarrow> (u, d) \<in> edges graph;
          card (white graph s) < depth;
          \<forall>x. color_of s x = GRAY \<longrightarrow> (x, u) \<in> (edges graph)\<^sup>*\<rbrakk>
         \<Longrightarrow> dfs_post graph s (dfs_deps depth graph deps s) \<and>
             (\<forall>s'. dfs_deps depth graph deps s = Inr s' \<longrightarrow>
                (\<forall>d \<in> set deps. d \<in> fst ` set graph \<longrightarrow> color_of s' d = BLACK))"
proof (induction depth graph v s and depth graph deps s arbitrary: and u
       rule: dfs_dfs_deps.induct)
  case (1 graph v s)
  then show ?case by simp
next
  case (2 depth graph v s)
  note dg = "2.prems"(1) and inv = "2.prems"(2) and vk = "2.prems"(3)
    and nb = "2.prems"(4) and fuel = "2.prems"(5) and reach = "2.prems"(6)
  from inv_node [OF inv vk] obtain nd where nd: "nodes s v = Some nd" by blast
  then have colv: "color_of s v = color nd" by (simp add: color_of_def)
  show ?case
  proof (cases "color nd = GRAY")
    case True
    with colv reach have "(v, v) \<in> (edges graph)\<^sup>+" by simp
    then have "\<not> acyclic (edges graph)" by (auto simp: acyclic_def)
    moreover have "dfs (Suc depth) graph v s = Inl ValueError" using nd True by simp
    ultimately show ?thesis by (simp add: dfs_post_fail)
  next
    case False
    with colv nb have w: "color_of s v = WHITE" by (cases "color nd") auto
    from vk obtain deps where deps: "map_of graph v = Some deps"
      by (metis domD dom_map_of_conv_image_fst)
    let ?s1 = "set_start v s"
    note ss = set_start_simps [OF nd]
    have unfold: "dfs (Suc depth) graph v s
        = (case dfs_deps depth graph deps ?s1 of Inl e \<Rightarrow> Inl e | Inr s' \<Rightarrow> Inr (set_finish v s'))"
      using nd False deps by simp
    have inv1: "dfs_inv graph ?s1" by (rule inv_set_start [OF inv nd w])
    have ed: "\<forall>d \<in> set deps. d \<in> fst ` set graph \<longrightarrow> (v, d) \<in> edges graph"
      using edges_deps [OF dg deps] by blast
    have fuel1: "card (white graph ?s1) < depth"
      using white_set_start [OF nd w vk] fuel by simp
    have reach1: "\<forall>x. color_of ?s1 x = GRAY \<longrightarrow> (x, v) \<in> (edges graph)\<^sup>*"
      using reach by (auto simp: ss split: if_splits)
    from "2.IH" [OF nd False deps dg inv1 vk ed fuel1 reach1]
    have post: "dfs_post graph ?s1 (dfs_deps depth graph deps ?s1)"
      and blk: "\<forall>s'. dfs_deps depth graph deps ?s1 = Inr s' \<longrightarrow>
                  (\<forall>d \<in> set deps. d \<in> fst ` set graph \<longrightarrow> color_of s' d = BLACK)"
      by blast+
    from post show ?thesis
    proof (cases rule: dfs_postE)
      case fail
      then show ?thesis unfolding unfold by (simp add: dfs_post_fail)
    next
      case (ok s2)
      from ok(3) have g2: "color_of s2 v = GRAY" by (simp add: ext_def ss)
      from inv_node [OF ok(2) vk] obtain nd2 where nd2: "nodes s2 v = Some nd2" by blast
      from blk ok(1) have b2: "\<forall>d \<in> set deps. d \<in> fst ` set graph \<longrightarrow> color_of s2 d = BLACK" by blast
      have "dfs_inv graph (set_finish v s2)"
        by (rule inv_set_finish [OF dg ok(2) nd2 g2 deps b2])
      moreover note ext_start_finish [OF nd w ok(3)]
      ultimately show ?thesis unfolding unfold by (simp add: ok(1) dfs_post_ok)
    qed
  qed
next
  case (3 depth graph s)
  then show ?case by (simp add: dfs_post_ok ext_refl)
next
  case (4 depth graph dep deps s)
  note dg = "4.prems"(1) and inv = "4.prems"(2) and uk = "4.prems"(3)
    and ed = "4.prems"(4) and fuel = "4.prems"(5) and reach = "4.prems"(6)
  from ed have ed': "\<forall>d \<in> set deps. d \<in> fst ` set graph \<longrightarrow> (u, d) \<in> edges graph" by simp
  show ?case
  proof (cases "nodes s dep")
    case None
    from inv_no_node [OF inv None] have nk: "dep \<notin> fst ` set graph" .
    from "4.IH"(1) [OF None dg inv uk ed' fuel reach] None nk
    show ?thesis by simp
  next
    case (Some nd)
    from inv_is_key [OF inv Some] have dk: "dep \<in> fst ` set graph" .
    have cold: "color_of s dep = color nd" using Some by (simp add: color_of_def)
    show ?thesis
    proof (cases "color nd = BLACK")
      case True
      from "4.IH"(4) [OF Some _ dg inv uk ed' fuel reach] True
      have post: "dfs_post graph s (dfs_deps depth graph deps s)"
        and blk: "\<forall>s'. dfs_deps depth graph deps s = Inr s' \<longrightarrow>
                  (\<forall>d \<in> set deps. d \<in> fst ` set graph \<longrightarrow> color_of s' d = BLACK)"
        by simp_all
      have unfold: "dfs_deps depth graph (dep # deps) s = dfs_deps depth graph deps s"
        using Some True by simp
      from post show ?thesis
      proof (cases rule: dfs_postE)
        case fail
        then show ?thesis unfolding unfold by (simp add: dfs_post_fail)
      next
        case (ok s')
        from ext_black [OF ok(3)] cold True have "color_of s' dep = BLACK" by simp
        with ok blk show ?thesis unfolding unfold by (simp add: dfs_post_ok)
      qed
    next
      case False
      have nb: "color_of s dep \<noteq> BLACK" using cold False by simp
      have reachd: "\<forall>x. color_of s x = GRAY \<longrightarrow> (x, dep) \<in> (edges graph)\<^sup>+"
        using reach ed dk by (auto intro: rtrancl_into_trancl1)
      from "4.IH"(2) [OF Some False dg inv dk nb fuel reachd]
      have post: "dfs_post graph s (dfs depth graph dep s)"
        and blk: "\<forall>s'. dfs depth graph dep s = Inr s' \<longrightarrow> color_of s' dep = BLACK"
        by blast+
      have unfold: "dfs_deps depth graph (dep # deps) s
          = (case dfs depth graph dep s of Inl e \<Rightarrow> Inl e | Inr s' \<Rightarrow> dfs_deps depth graph deps s')"
        using Some False by simp
      from post show ?thesis
      proof (cases rule: dfs_postE)
        case fail
        then show ?thesis unfolding unfold by (simp add: dfs_post_fail)
      next
        case (ok s1)
        from blk ok(1) have b1: "color_of s1 dep = BLACK" by blast
        have fuel1: "card (white graph s1) < depth"
          using white_card_mono [OF ok(3), of graph] fuel by simp
        have reach1: "\<forall>x. color_of s1 x = GRAY \<longrightarrow> (x, u) \<in> (edges graph)\<^sup>*"
          using reach ok(3) by (simp add: ext_def)
        from "4.IH"(3) [OF Some False ok(1) dg ok(2) uk ed' fuel1 reach1]
        have post2: "dfs_post graph s1 (dfs_deps depth graph deps s1)"
          and blk2: "\<forall>s'. dfs_deps depth graph deps s1 = Inr s' \<longrightarrow>
                  (\<forall>d \<in> set deps. d \<in> fst ` set graph \<longrightarrow> color_of s' d = BLACK)"
          by blast+
        from post2 show ?thesis
        proof (cases rule: dfs_postE)
          case fail
          then show ?thesis unfolding unfold by (simp add: ok(1) dfs_post_fail)
        next
          case ok2: (ok s2)
          from ext_black [OF ok2(3) b1] have "color_of s2 dep = BLACK" .
          moreover from ext_trans [OF ok(3) ok2(3)] have "ext s s2" .
          ultimately show ?thesis
            using ok2 blk2 unfolding unfold by (simp add: ok(1) dfs_post_ok)
        qed
      qed
    qed
  qed
qed


lemma dfs_all_correct:
  "\<lbrakk>distinct (map fst graph); dfs_inv graph s; set vs \<subseteq> fst ` set graph;
    card (white graph s) < depth; \<forall>x. color_of s x \<noteq> GRAY\<rbrakk>
   \<Longrightarrow> dfs_post graph s (dfs_all depth graph vs s) \<and>
       (\<forall>s'. dfs_all depth graph vs s = Inr s' \<longrightarrow>
          (\<forall>x. color_of s' x \<noteq> GRAY) \<and> (\<forall>v \<in> set vs. color_of s' v = BLACK))"
proof (induction vs arbitrary: s)
  case Nil
  then show ?case by (simp add: dfs_post_ok ext_refl)
next
  case (Cons v vs)
  note dg = Cons.prems(1) and inv = Cons.prems(2) and fuel = Cons.prems(4)
    and nogray = Cons.prems(5)
  from Cons.prems(3) have vk: "v \<in> fst ` set graph" and vsk: "set vs \<subseteq> fst ` set graph"
    by simp_all
  from inv_node [OF inv vk] obtain nd where nd: "nodes s v = Some nd" by blast
  then have colv: "color_of s v = color nd" by (simp add: color_of_def)
  show ?case
  proof (cases "color nd = WHITE")
    case True
    have unfold: "dfs_all depth graph (v # vs) s
        = (case dfs depth graph v s of Inl e \<Rightarrow> Inl e | Inr s' \<Rightarrow> dfs_all depth graph vs s')"
      using nd True by simp
    have nb: "color_of s v \<noteq> BLACK" using colv True by simp
    have reach: "\<forall>x. color_of s x = GRAY \<longrightarrow> (x, v) \<in> (edges graph)\<^sup>+" using nogray by simp
    from dfs_correct(1) [OF dg inv vk nb fuel reach]
    have post: "dfs_post graph s (dfs depth graph v s)"
      and blk: "\<forall>s'. dfs depth graph v s = Inr s' \<longrightarrow> color_of s' v = BLACK" by blast+
    from post show ?thesis
    proof (cases rule: dfs_postE)
      case fail
      then show ?thesis unfolding unfold by (simp add: dfs_post_fail)
    next
      case (ok s1)
      from blk ok(1) have b1: "color_of s1 v = BLACK" by blast
      have fuel1: "card (white graph s1) < depth"
        using white_card_mono [OF ok(3), of graph] fuel by simp
      have nogray1: "\<forall>x. color_of s1 x \<noteq> GRAY" using nogray ok(3) by (simp add: ext_def)
      from Cons.IH [OF dg ok(2) vsk fuel1 nogray1]
      have post2: "dfs_post graph s1 (dfs_all depth graph vs s1)"
        and rest: "\<forall>s'. dfs_all depth graph vs s1 = Inr s' \<longrightarrow>
                     (\<forall>x. color_of s' x \<noteq> GRAY) \<and> (\<forall>v \<in> set vs. color_of s' v = BLACK)" by blast+
      from post2 show ?thesis
      proof (cases rule: dfs_postE)
        case fail
        then show ?thesis unfolding unfold by (simp add: ok(1) dfs_post_fail)
      next
        case ok2: (ok s2)
        from ext_black [OF ok2(3) b1] have "color_of s2 v = BLACK" .
        moreover from ext_trans [OF ok(3) ok2(3)] have "ext s s2" .
        ultimately show ?thesis
          using ok2 rest unfolding unfold by (simp add: ok(1) dfs_post_ok)
      qed
    qed
  next
    case False
    have unfold: "dfs_all depth graph (v # vs) s = dfs_all depth graph vs s"
      using nd False by simp
    from False colv nogray have b: "color_of s v = BLACK" by (cases "color nd") auto
    from Cons.IH [OF dg inv vsk fuel nogray]
    have post: "dfs_post graph s (dfs_all depth graph vs s)"
      and rest: "\<forall>s'. dfs_all depth graph vs s = Inr s' \<longrightarrow>
                   (\<forall>x. color_of s' x \<noteq> GRAY) \<and> (\<forall>v \<in> set vs. color_of s' v = BLACK)" by blast+
    from post show ?thesis
    proof (cases rule: dfs_postE)
      case fail
      then show ?thesis unfolding unfold by (simp add: dfs_post_fail)
    next
      case (ok s')
      from ext_black [OF ok(3) b] have "color_of s' v = BLACK" .
      with ok rest show ?thesis unfolding unfold by (simp add: dfs_post_ok)
    qed
  qed
qed

lemma index_of_Cons: "index_of (x # xs) a = (if x = a then 0 else Suc (index_of xs a))"
  by (simp add: index_of_def)

lemma sorted_index_of:
  "sorted (map g xs) \<Longrightarrow> a \<in> set xs \<Longrightarrow> b \<in> set xs \<Longrightarrow> g a < g b
   \<Longrightarrow> index_of xs a < index_of xs b"
  for g :: "'a \<Rightarrow> int"
proof (induction xs)
  case Nil
  then show ?case by simp
next
  case (Cons x xs)
  show ?case
  proof (cases "x = a")
    case True
    with Cons.prems(4) have "x \<noteq> b" by auto
    with True show ?thesis by (simp add: index_of_Cons)
  next
    case False
    with Cons.prems(2) have a: "a \<in> set xs" by simp
    have "x \<noteq> b"
    proof
      assume "x = b"
      with Cons.prems(1) a have "g b \<le> g a" by auto
      with Cons.prems(4) show False by simp
    qed
    with Cons.prems(3) have b: "b \<in> set xs" by simp
    from Cons.prems(1) have "sorted (map g xs)" by simp
    from Cons.IH [OF this a b Cons.prems(4)] False \<open>x \<noteq> b\<close>
    show ?thesis by (simp add: index_of_Cons)
  qed
qed

lemma initial_state:
  fixes graph :: "'a graph"
  defines "s0 \<equiv> \<lparr>nodes = map_of (map (\<lambda>kv. (fst kv, new_node)) graph), time = 0\<rparr>"
  shows "dfs_inv graph s0" and "\<forall>x. color_of s0 x \<noteq> GRAY"
    and "card (white graph s0) < Suc (length graph)"
proof -
  have w: "color_of s0 x = WHITE" for x
  proof (cases "nodes s0 x")
    case None
    then show ?thesis by (simp add: color_of_def)
  next
    case (Some nd)
    then have "(x, nd) \<in> set (map (\<lambda>kv. (fst kv, new_node)) graph)"
      by (auto simp: s0_def dest: map_of_SomeD)
    then have "nd = new_node" by auto
    with Some show ?thesis by (simp add: color_of_def new_node_def)
  qed
  have "dom (nodes s0) = fst ` set graph"
    by (simp add: s0_def dom_map_of_conv_image_fst image_image)
  with w show "dfs_inv graph s0" by (simp add: dfs_inv_def)
  from w show "\<forall>x. color_of s0 x \<noteq> GRAY" by simp
  have "white graph s0 \<subseteq> fst ` set graph" by (auto simp: white_def)
  then have "card (white graph s0) \<le> card (fst ` set graph)" by (intro card_mono) simp_all
  also have "\<dots> \<le> card (set graph)" by (rule card_image_le) simp
  also have "\<dots> \<le> length graph" by (rule card_length)
  finally show "card (white graph s0) < Suc (length graph)" by simp
qed


lemma topological_cases:
  assumes dg: "distinct (map fst graph)"
  shows "(topological graph = Inl ValueError \<and> \<not> acyclic (edges graph)) \<or>
         (\<exists>order. topological graph = Inr order \<and> acyclic (edges graph) \<and>
            distinct order \<and> set order = fst ` set graph \<and>
            (\<forall>(u, v) \<in> edges graph. index_of order u < index_of order v))"
proof -
  let ?s0 = "\<lparr>nodes = map_of (map (\<lambda>kv. (fst kv, new_node)) graph), time = 0\<rparr>"
  let ?r = "dfs_all (Suc (length graph)) graph (map fst graph) ?s0"
  have keys: "set (map fst graph) \<subseteq> fst ` set graph" by simp
  from dfs_all_correct [OF dg initial_state(1) keys initial_state(3) initial_state(2)]
  have post: "dfs_post graph ?s0 ?r"
    and finish_of: "\<forall>s'. ?r = Inr s' \<longrightarrow>
                (\<forall>x. color_of s' x \<noteq> GRAY) \<and> (\<forall>v \<in> set (map fst graph). color_of s' v = BLACK)"
    by blast+
  from post show ?thesis
  proof (cases rule: dfs_postE)
    case fail
    then show ?thesis by (simp add: topological_def)
  next
    case (ok s)
    from finish_of ok(1) have black: "\<forall>v \<in> fst ` set graph. color_of s v = BLACK" by simp
    let ?f = "\<lambda>k. the (finish_of s k)"
    have some: "\<exists>f. finish_of s k = Some f" if "k \<in> fst ` set graph" for k
      using that black ok(2) unfolding dfs_inv_def by blast
    have less: "?f v < ?f u" if "(u, v) \<in> edges graph" for u v
    proof -
      from that have "u \<in> fst ` set graph" by (force simp: edges_def)
      with black have "color_of s u = BLACK" by blast
      with ok(2) that show ?thesis unfolding dfs_inv_def by fastforce
    qed
    have acyc: "acyclic (edges graph)"
      by (rule acyclicI_order [where f = ?f]) (rule less)
    let ?kfs = "key_finishes graph s"
    let ?h = "\<lambda>x :: 'a \<times> int option. - the (snd x)"
    have kfs: "?kfs = map (\<lambda>k. (k, finish_of s k)) (map fst graph)"
      by (simp add: key_finishes_def finish_of_def)
    have noNone: "\<not> list_ex (\<lambda>x. snd x = None) ?kfs"
      using some by (auto simp: kfs list_ex_iff)
    let ?order = "map fst (sort_key ?h ?kfs)"
    have res: "topological graph = Inr ?order"
      using ok(1) noNone by (simp add: topological_def)
    have dk: "distinct ?kfs" using dg by (simp add: kfs distinct_map inj_on_def)
    have inj: "inj_on fst (set ?kfs)" by (auto simp: kfs inj_on_def)
    have d: "distinct ?order" using dk inj by (simp add: distinct_map)
    have st: "set ?order = fst ` set graph" by (force simp: kfs)
    have eq: "map (\<lambda>k. - ?f k) ?order = map ?h (sort_key ?h ?kfs)"
      by (auto simp: kfs)
    have sorted: "sorted (map (\<lambda>k. - ?f k) ?order)"
      unfolding eq by (rule sorted_sort_key)
    have ord: "index_of ?order u < index_of ?order v" if e: "(u, v) \<in> edges graph" for u v
    proof -
      from e have "u \<in> set ?order" "v \<in> set ?order" unfolding st by (force simp: edges_def)+
      moreover from less [OF e] have "- ?f u < - ?f v" by simp
      ultimately show ?thesis by (rule sorted_index_of [OF sorted])
    qed
    from res acyc d st ord show ?thesis by blast
  qed
qed

lemma dom_set_start: "dom (nodes (set_start v s)) = dom (nodes s)"
  by (auto simp: set_start_def dom_def)

lemma dom_set_finish: "dom (nodes (set_finish v s)) = dom (nodes s)"
  by (auto simp: set_finish_def dom_def)

lemma dfs_dom:
  shows "dfs depth graph v s = Inr s' \<Longrightarrow> dom (nodes s') = dom (nodes s)"
    and "dfs_deps depth graph deps s = Inr s' \<Longrightarrow> dom (nodes s') = dom (nodes s)"
proof (induction depth graph v s and depth graph deps s arbitrary: s' and s'
       rule: dfs_dfs_deps.induct)
  case (1 graph v s)
  then show ?case by simp
next
  case (2 depth graph v s)
  from "2.prems" obtain nd deps s2 where nd: "nodes s v = Some nd" "color nd \<noteq> GRAY"
    and deps: "map_of graph v = Some deps"
    and s2: "dfs_deps depth graph deps (set_start v s) = Inr s2" and s': "s' = set_finish v s2"
    by (auto split: option.splits if_splits sum.splits)
  from "2.IH" [OF nd deps s2] show ?case by (simp add: s' dom_set_start dom_set_finish)
next
  case (3 depth graph s)
  then show ?case by simp
next
  case (4 depth graph dep deps s)
  show ?case
  proof (cases "nodes s dep")
    case None
    with "4.prems" "4.IH"(1) show ?thesis by simp
  next
    case (Some nd)
    show ?thesis
    proof (cases "color nd = BLACK")
      case True
      with Some "4.prems" "4.IH"(4) show ?thesis by simp
    next
      case False
      with Some "4.prems" obtain s1 where s1: "dfs depth graph dep s = Inr s1"
        and rest: "dfs_deps depth graph deps s1 = Inr s'"
        by (auto split: sum.splits)
      from "4.IH"(2) [OF Some False s1] "4.IH"(3) [OF Some False s1 rest]
      show ?thesis by simp
    qed
  qed
qed

lemma map_of_prune:
  "map_of (prune graph) v
     = map_option (filter (\<lambda>d. d \<in> fst ` set graph)) (map_of graph v)"
proof -
  have "map_of (map (\<lambda>kv. (fst kv, f (snd kv))) xs) v = map_option f (map_of xs v)"
    for f :: "'a list \<Rightarrow> 'a list" and xs :: "'a graph"
    by (induction xs) auto
  then show ?thesis by (simp add: prune_def)
qed

lemma dfs_prune:
  shows "dom (nodes s) = fst ` set graph \<Longrightarrow> dfs depth (prune graph) v s = dfs depth graph v s"
    and "dom (nodes s) = fst ` set graph \<Longrightarrow>
         dfs_deps depth (prune graph) (filter (\<lambda>d. d \<in> fst ` set graph) deps) s
           = dfs_deps depth graph deps s"
proof (induction depth graph v s and depth graph deps s rule: dfs_dfs_deps.induct)
  case (1 graph v s)
  then show ?case by simp
next
  case (2 depth graph v s)
  show ?case
  proof (cases "nodes s v")
    case None
    then show ?thesis by simp
  next
    case (Some nd)
    show ?thesis
    proof (cases "color nd = GRAY")
      case True
      with Some show ?thesis by simp
    next
      case False
      show ?thesis
      proof (cases "map_of graph v")
        case None
        with Some False show ?thesis by (simp add: map_of_prune)
      next
        case deps: (Some deps)
        from "2.IH" [OF Some False deps] "2.prems"
        have "dfs_deps depth (prune graph) (filter (\<lambda>d. d \<in> fst ` set graph) deps) (set_start v s)
                = dfs_deps depth graph deps (set_start v s)"
          by (simp add: dom_set_start)
        with Some False deps show ?thesis by (simp add: map_of_prune)
      qed
    qed
  qed
next
  case (3 depth graph s)
  then show ?case by simp
next
  case (4 depth graph dep deps s)
  note dm = "4.prems"
  show ?case
  proof (cases "nodes s dep")
    case None
    with dm have "dep \<notin> fst ` set graph" by auto
    with None "4.IH"(1) [OF None dm] show ?thesis by simp
  next
    case (Some nd)
    with dm have dk: "dep \<in> fst ` set graph" by auto
    show ?thesis
    proof (cases "color nd = BLACK")
      case True
      with Some dk "4.IH"(4) [OF Some _ dm] show ?thesis by simp
    next
      case False
      note ih2 = "4.IH"(2) [OF Some False dm]
      show ?thesis
      proof (cases "dfs depth graph dep s")
        case (Inl e)
        with Some False dk ih2 show ?thesis by simp
      next
        case (Inr s1)
        from dfs_dom(1) [OF Inr] dm have "dom (nodes s1) = fst ` set graph" by simp
        from "4.IH"(3) [OF Some False Inr this] Some False dk ih2 Inr
        show ?thesis by simp
      qed
    qed
  qed
qed

lemma dfs_all_dom: "dfs_all depth graph vs s = Inr s' \<Longrightarrow> dom (nodes s') = dom (nodes s)"
proof (induction vs arbitrary: s)
  case Nil
  then show ?case by simp
next
  case (Cons v vs)
  from Cons.prems obtain nd where nd: "nodes s v = Some nd" by (auto split: option.splits)
  show ?case
  proof (cases "color nd = WHITE")
    case True
    with nd Cons.prems obtain s1 where s1: "dfs depth graph v s = Inr s1"
      and rest: "dfs_all depth graph vs s1 = Inr s'"
      by (auto split: sum.splits)
    from dfs_dom(1) [OF s1] Cons.IH [OF rest] show ?thesis by simp
  next
    case False
    with nd Cons.prems Cons.IH [of s] show ?thesis by simp
  qed
qed

lemma dfs_all_prune:
  "dom (nodes s) = fst ` set graph \<Longrightarrow>
   dfs_all depth (prune graph) vs s = dfs_all depth graph vs s"
proof (induction vs arbitrary: s)
  case Nil
  then show ?case by simp
next
  case (Cons v vs)
  show ?case
  proof (cases "dfs depth graph v s")
    case (Inl e)
    with Cons show ?thesis by (simp add: dfs_prune(1) split: option.splits)
  next
    case (Inr s1)
    from dfs_dom(1) [OF Inr] Cons.prems have "dom (nodes s1) = fst ` set graph" by simp
    from Cons.IH [OF this] Cons.IH [OF Cons.prems] Cons.prems Inr
    show ?thesis by (simp add: dfs_prune(1) split: option.splits)
  qed
qed

lemma topological_prune: "topological (prune graph) = topological graph"
proof -
  have keys: "map fst (prune graph) = map fst graph" by (simp add: prune_def comp_def)
  have init: "map (\<lambda>kv. (fst kv, new_node)) (prune graph) = map (\<lambda>kv. (fst kv, new_node)) graph"
    by (simp add: prune_def comp_def)
  have len: "length (prune graph) = length graph" by (simp add: prune_def)
  have dm: "dom (nodes \<lparr>nodes = map_of (map (\<lambda>kv. (fst kv, new_node)) graph), time = 0\<rparr>)
              = fst ` set graph"
    by (simp add: dom_map_of_conv_image_fst image_image)
  show ?thesis
    unfolding topological_def key_finishes_def keys init len
    by (simp add: dfs_all_prune [OF dm])
qed

text \<open>
  The availability guard, for a registered column \<open>c\<close> and enforcement enabled: a read
  with \<open>assert_available_on\<close> below \<open>available_on_date c\<close> raises the availability
  error; a read with \<open>assert_available_on\<close> at or above it does not, and goes on exactly
  as the read without enforcement does (after \<open>get_column\<close> has noted the column); a
  value the store holds is then returned. A protected column is available on date + 1, a
  base column on its own date.
\<close>

lemma availability_guard:
  assumes "map_of (columns (cm t)) (snd cell_addr) = Some c"
  shows "(assert_available_on < available_on_date c cell_addr \<longrightarrow>
            returned (get_cell_value t cell_addr key assert_available_on True) = Inl NotAvailable) \<and>
         (available_on_date c cell_addr \<le> assert_available_on \<longrightarrow>
            returned (get_cell_value t cell_addr key assert_available_on True) \<noteq> Inl NotAvailable \<and>
            get_cell_value t cell_addr key assert_available_on True
              = get_cell_value
                  (t\<lparr>cm := (cm t)\<lparr>save_needed := insert (snd cell_addr) (save_needed (cm t))\<rparr>\<rparr>)
                  cell_addr key assert_available_on False \<and>
            (\<forall>v. returned (get_value (cells t) cell_addr key) = Inr (Some v) \<longrightarrow>
                 returned (get_cell_value t cell_addr key assert_available_on True) = Inr (Some v))) \<and>
         (kind c = Protected \<longrightarrow> available_on_date c cell_addr = fst cell_addr + 1) \<and>
         (kind c = Plain \<longrightarrow> available_on_date c cell_addr = fst cell_addr)"
proof -
  let ?t' = "t\<lparr>cm := (cm t)\<lparr>save_needed := insert (snd cell_addr) (save_needed (cm t))\<rparr>\<rparr>"
  have gc: "get_column (cm t) (snd cell_addr)
          = Inr (c, (cm t)\<lparr>save_needed := insert (snd cell_addr) (save_needed (cm t))\<rparr>)"
    using assms by (simp add: get_column_def)
  have chkF: "check_available s cell_addr assert_available_on False = Inr ((), s)" for s
    by (simp add: check_available_def)
  have fail: "assert_available_on < available_on_date c cell_addr \<Longrightarrow>
      returned (get_cell_value t cell_addr key assert_available_on True) = Inl NotAvailable"
    by (simp add: get_cell_value_def check_available_def gc returned_def)
  have pass: "check_available t cell_addr assert_available_on True = Inr ((), ?t')"
    if "available_on_date c cell_addr \<le> assert_available_on"
    using that by (simp add: check_available_def gc)
  have eq: "get_cell_value t cell_addr key assert_available_on True
              = get_cell_value ?t' cell_addr key assert_available_on False"
    if "available_on_date c cell_addr \<le> assert_available_on"
    by (simp add: get_cell_value_def pass [OF that] chkF)
  have noerr: "returned (get_cell_value ?t' cell_addr key assert_available_on False) \<noteq> Inl NotAvailable"
    using get_value_Inr [of "cells t" cell_addr key]
    by (auto simp: get_cell_value_def chkF returned_def Let_def
        dest: set_value_no_NotAvailable get_column_no_NotAvailable key_init_no_NotAvailable
        split: sum.splits prod.splits option.splits)
  have hit: "returned (get_cell_value t cell_addr key assert_available_on True) = Inr (Some v)"
    if "available_on_date c cell_addr \<le> assert_available_on"
       "returned (get_value (cells t) cell_addr key) = Inr (Some v)" for v
    using that(2)
    by (auto simp: get_cell_value_def pass [OF that(1)] returned_def
        split: sum.splits prod.splits option.splits)
  show ?thesis
    using fail eq noerr hit by (auto simp: available_on_date_def)
qed

text \<open>
  The eviction policy where every write of a file succeeds. For a store that is not
  read-only, started with at most
  \<open>cache_size\<close> resident pages of distinct names, after any sequence \<open>ops\<close> of
  \<open>get_value\<close>/\<open>set_value\<close> calls and one more call \<open>op\<close> on a page named \<open>n\<close>:
  the cache holds at most \<open>cache_size\<close> pages with distinct names; if \<open>n\<close> is
  resident or can be loaded, the resident names are the LRU order \<open>lru_touch\<close> of the
  names before (most recently used first); if the load fails the store is unchanged;
  when a new page is loaded into a full cache, exactly the last (least recently used)
  page leaves, and its file then holds its in-memory state; otherwise no file is
  written; and every page behind the accessed one keeps its in-memory state.
\<close>

lemma lru_eviction:
  fixes pm0 :: "('a, 'n, 'v) PageMaster" and ops :: "('a, 'v) pm_op list" and op :: "('a, 'v) pm_op"
  assumes "\<not> readonly pm0" "int (length (cache pm0)) \<le> cache_size pm0" "distinct (resident pm0)"
      "\<forall>n p. on_write pm0 n p = Written"
  defines "pm \<equiv> run_ops pm0 ops"
  defines "pm' \<equiv> apply_op (run_ops pm0 ops) op"
  defines "n \<equiv> addr_to_page pm0 (op_addr op)"
  shows "int (length (cache pm')) \<le> cache_size pm0 \<and> distinct (resident pm') \<and>
         (n \<in> set (resident pm) \<or> files pm n \<noteq> Some Malformed \<longrightarrow>
            resident pm' = lru_touch (cache_size pm0) (resident pm) n) \<and>
         (n \<notin> set (resident pm) \<and> files pm n = Some Malformed \<longrightarrow> pm' = pm) \<and>
         (n \<notin> set (resident pm) \<and> files pm n \<noteq> Some Malformed \<and>
          int (length (cache pm)) = cache_size pm0 \<longrightarrow>
            resident pm' = butlast (n # resident pm) \<and>
            files pm' = (files pm)(last (n # resident pm)
                          \<mapsto> Pickled (snd (last ((n, loaded pm n) # cache pm))))) \<and>
         (\<not> (n \<notin> set (resident pm) \<and> files pm n \<noteq> Some Malformed \<and>
             int (length (cache pm)) = cache_size pm0) \<longrightarrow> files pm' = files pm) \<and>
         set (tl (cache pm')) \<subseteq> set (cache pm)"
proof -
  from run_ops_inv [OF assms(1-4), of ops]
  have wr: "\<not> readonly pm" and C: "cache_size pm = cache_size pm0"
    and a2p: "addr_to_page pm = addr_to_page pm0"
    and wok: "\<forall>n p. on_write pm n p = Written"
    and inv: "int (length (cache pm)) \<le> cache_size pm" "distinct (resident pm)"
    using assms(4) by (simp_all add: pm_def)
  have n: "n = addr_to_page pm (op_addr op)" by (simp add: n_def a2p)
  have pm': "pm' = apply_op pm op" by (simp add: pm'_def pm_def)
  note view = apply_op_view [OF wr, of op, folded pm' n]
  have I: "int (length (cache pm')) \<le> cache_size pm0 \<and> distinct (resident pm')"
    using apply_op_inv [OF wr wok inv, of op] by (simp add: pm' C)
  consider (hit) "n \<in> set (resident pm)"
    | (miss) "n \<notin> set (resident pm)" "files pm n \<noteq> Some Malformed"
    | (fail) "n \<notin> set (resident pm)" "files pm n = Some Malformed"
    by blast
  then show ?thesis
  proof cases
    case hit
    from touch_hit(2-4) [OF inv hit [unfolded n]] view(1-3) hit I
    show ?thesis by (simp add: n C)
  next
    case miss
    from touch_miss(1-4) [OF wr wok inv(1) miss [unfolded n]] view(1-3) miss I
    show ?thesis by (auto simp: n C)
  next
    case fail
    then have "get_page pm (op_addr op) = Inl (UnpicklingError, pm)"
      unfolding n by (intro get_page_fail) (simp_all add: resident_def)
    have "set (tl (cache pm)) \<subseteq> set (cache pm)" by (cases "cache pm") auto
    with view(7) [OF \<open>get_page pm (op_addr op) = Inl (UnpicklingError, pm)\<close>] fail I
    show ?thesis by auto
  qed
qed

text \<open>
  In the store of capacity 1 that can be written: after a write to page 1, a read on
  page 2 evicts page 1, and the file of page 1 then holds the value written.
\<close>

lemma lru_eviction_store_small:
  "resident (apply_op (run_ops store_small [SetValue 1 ''k'' (Some 5)]) (GetValue 2 ''k'')) = [2] \<and>
   files (apply_op (run_ops store_small [SetValue 1 ''k'' (Some 5)]) (GetValue 2 ''k'')) 1
     = Some (Pickled (snd (last (cache (run_ops store_small [SetValue 1 ''k'' (Some 5)]))))) \<and>
   snd (last (cache (run_ops store_small [SetValue 1 ''k'' (Some 5)]))) (1, ''k'') = Some (Some 5) \<and>
   int (length (cache (apply_op (run_ops store_small [SetValue 1 ''k'' (Some 5)]) (GetValue 2 ''k''))))
     \<le> cache_size store_small"
proof -
  let ?ops = "[SetValue 1 ''k'' (Some 5)] :: (nat, int) pm_op list"
  let ?op = "GetValue 2 ''k'' :: (nat, int) pm_op"
  have h: "\<not> readonly store_small" "int (length (cache store_small)) \<le> cache_size store_small"
      "distinct (resident store_small)" "\<forall>n p. on_write store_small n p = Written"
    by (simp_all add: store_small_def resident_def)
  have pm: "run_ops store_small ?ops
      = store_small\<lparr>cache := [(1, [(1, ''k'') \<mapsto> Some 5])]\<rparr>"
    by (simp add: run_ops_def apply_op_def store_small_def state_after_def set_value_def
        get_page_def load_new_page_def load_file_def mutate_front_def addr_key_def)
  have pre: "addr_to_page store_small (op_addr ?op) \<notin> set (resident (run_ops store_small ?ops))"
      "files (run_ops store_small ?ops) (addr_to_page store_small (op_addr ?op)) \<noteq> Some Malformed"
      "int (length (cache (run_ops store_small ?ops))) = cache_size store_small"
    unfolding pm by (simp_all add: store_small_def resident_def)
  from lru_eviction [OF h, of ?ops ?op] pre
  have "resident (apply_op (run_ops store_small ?ops) ?op)
          = butlast (addr_to_page store_small (op_addr ?op) # resident (run_ops store_small ?ops))"
    "files (apply_op (run_ops store_small ?ops) ?op)
          = (files (run_ops store_small ?ops))
              (last (addr_to_page store_small (op_addr ?op) # resident (run_ops store_small ?ops))
               \<mapsto> Pickled (snd (last ((addr_to_page store_small (op_addr ?op),
                            loaded (run_ops store_small ?ops) (addr_to_page store_small (op_addr ?op)))
                           # cache (run_ops store_small ?ops)))))"
    "int (length (cache (apply_op (run_ops store_small ?ops) ?op))) \<le> cache_size store_small"
    by blast+
  then show ?thesis
    unfolding pm by (simp add: store_small_def resident_def)
qed

text \<open>
  Where the write of the evicted page fails, the effect is that of the read-only test
  of \<open>_save_single_page\<close>: the page just loaded stays in front of a cache that is not
  cut. \<open>set_value\<close> hands the error on.
\<close>

lemma failed_write_leaves_cache_uncut:
  "resident (run_ops store_unwritable [SetValue 1 ''k'' (Some 5)]) = [1] \<and>
   returned (set_value (run_ops store_unwritable [SetValue 1 ''k'' (Some 5)]) 2 ''k'' (Some 6))
     = Inl OSError \<and>
   resident (run_ops store_unwritable [SetValue 1 ''k'' (Some 5), SetValue 2 ''k'' (Some 6)])
     = [2, 1]"
  by (simp add: run_ops_def apply_op_def store_unwritable_def store_small_def state_after_def
      returned_def set_value_def get_page_def load_new_page_def load_file_def save_single_page_def
      save_file_def mutate_front_def resident_def addr_key_def)

section \<open>Results\<close>

text \<open>
  C8. \<open>PageMaster.get_value\<close> never raises: for every store state, address and key it
  returns a value, and whenever resolving or loading the page fails inside, the value
  returned is \<open>None\<close>, the same as for a key that was never stored.
\<close>

theorem C8_get_value_never_raises:
  "(\<exists>r pm'. get_value pm addr key = Inr (r, pm')) \<and>
   (\<forall>e pm'. get_page pm addr = Inl (e, pm') \<longrightarrow> get_value pm addr key = Inr (None, pm'))"
  by (auto simp: get_value_def split: sum.splits prod.splits option.splits)

theorem C8_get_value_never_raises_witness:
  "get_page \<lparr>readonly = False, cache = [], cache_size = 1, addr_to_page = (\<lambda>a::nat. a),
             files = [0 \<mapsto> (Malformed :: (nat, int) page stored_file)],
             on_write = (\<lambda>_ _. Written)\<rparr> 0
     = Inl (UnpicklingError,
            \<lparr>readonly = False, cache = [], cache_size = 1, addr_to_page = (\<lambda>a::nat. a),
             files = [0 \<mapsto> Malformed], on_write = (\<lambda>_ _. Written)\<rparr>)
   \<and> get_value \<lparr>readonly = False, cache = [], cache_size = 1, addr_to_page = (\<lambda>a::nat. a),
             files = [0 \<mapsto> (Malformed :: (nat, int) page stored_file)],
             on_write = (\<lambda>_ _. Written)\<rparr> 0 ''k''
     = Inr (None,
            \<lparr>readonly = False, cache = [], cache_size = 1, addr_to_page = (\<lambda>a::nat. a),
             files = [0 \<mapsto> Malformed], on_write = (\<lambda>_ _. Written)\<rparr>)"
proof -
  let ?pm = "\<lparr>readonly = False, cache = [], cache_size = 1, addr_to_page = (\<lambda>a::nat. a),
             files = [0 \<mapsto> (Malformed :: (nat, int) page stored_file)],
             on_write = (\<lambda>_ _. Written)\<rparr>"
  have gp: "get_page ?pm 0 = Inl (UnpicklingError, ?pm)"
    by (simp add: get_page_def load_new_page_def load_file_def)
  from C8_get_value_never_raises [of ?pm 0 "''k''"] gp
  have "get_value ?pm 0 ''k'' = Inr (None, ?pm)" by blast
  with gp show ?thesis by simp
qed

text \<open>
  C10. Availability enforcement is off by default: \<open>CHECK_DATE_AVAILABILITY\<close> is
  \<open>False\<close>, and a call of \<open>get_cell_value\<close> with that value skips the guard (the
  table is handed on unchanged), never raises the availability error, and does not depend
  on \<open>assert_available_on\<close>, whatever the column's \<open>available_on_date\<close> is.
\<close>

theorem C10_default_never_checks_availability:
  "CHECK_DATE_AVAILABILITY = False \<and>
   check_available t cell_addr assert_available_on CHECK_DATE_AVAILABILITY = Inr ((), t) \<and>
   returned (get_cell_value t cell_addr key assert_available_on CHECK_DATE_AVAILABILITY)
     \<noteq> Inl NotAvailable \<and>
   get_cell_value t cell_addr key assert_available_on CHECK_DATE_AVAILABILITY
     = get_cell_value t cell_addr key MAX_DATE CHECK_DATE_AVAILABILITY"
proof -
  have chk: "check_available t cell_addr x CHECK_DATE_AVAILABILITY = Inr ((), t)" for x
    by (simp add: check_available_def CHECK_DATE_AVAILABILITY_def)
  have "returned (get_cell_value t cell_addr key assert_available_on CHECK_DATE_AVAILABILITY)
     \<noteq> Inl NotAvailable"
    using get_value_Inr [of "cells t" cell_addr key]
    by (auto simp: get_cell_value_def chk returned_def Let_def
        dest: set_value_no_NotAvailable get_column_no_NotAvailable key_init_no_NotAvailable
        split: sum.splits prod.splits option.splits)
  moreover have "get_cell_value t cell_addr key assert_available_on CHECK_DATE_AVAILABILITY
     = get_cell_value t cell_addr key MAX_DATE CHECK_DATE_AVAILABILITY"
    by (simp add: get_cell_value_def chk)
  ultimately show ?thesis using chk by (simp add: CHECK_DATE_AVAILABILITY_def)
qed


text \<open>
  C3 (the code departs from the claim). \<open>push_date\<close> returns \<open>None\<close> on every path, so
  \<open>set_cell_value\<close> never takes its new-key branch. In the table with columns A and B,
  writing the key "key", unseen at date 1, to column A runs no \<open>key_init\<close> and leaves
  A's dirty set empty; only the declared dependent B is marked.
\<close>

theorem C3_new_key_leaves_row_clean:
  "dates_keys (ds table_AB) 1 = None \<and>
   returned (set_cell_value table_AB (1, ''A'') ''key'' (Some (IntV 100))) = Inr () \<and>
   need_refresh (state_after (set_cell_value table_AB (1, ''A'') ''key'' (Some (IntV 100)))) ''A''
     = {} \<and>
   need_refresh (state_after (set_cell_value table_AB (1, ''A'') ''key'' (Some (IntV 100)))) ''B''
     = {(1, ''B'')} \<and>
   key_init_log (state_after (set_cell_value table_AB (1, ''A'') ''key'' (Some (IntV 100)))) = []"
  by (simp add: table_AB_def new_table_def set_cell_value_def cm_contains_def push_date_def
      add_key_def truthy_def set_value_def get_page_def load_new_page_def load_file_def
      mutate_front_def get_column_def cell_dependencies_def dependencies_def mark_refresh_def
      returned_def state_after_def cell_addr_to_page_def Let_def)

text \<open>
  C9 (the code departs from the claim). The guard itself does what the claim says: in
  the table with the protected column T and the value 100 stored at date 500, a read
  with \<open>assert_available_on\<close> = 500 raises the availability error and a read with 501
  returns 100. But a read that passes the guard returns the cell's value only if the
  store holds one: for a key with no stored value, with the protected column T at 501 or
  the base column A at 500, the call raises NameError at \<open>result = NoneClass()\<close>.
\<close>

theorem C9_unset_cell_raises_NameError:
  "available_on_date \<lparr>name = ''T'', column_dependencies = [], kind = Protected\<rparr> (500, ''T'') = 501 \<and>
   available_on_date \<lparr>name = ''A'', column_dependencies = [], kind = Plain\<rparr> (500, ''A'') = 500 \<and>
   returned (get_cell_value table_P500 (500, ''T'') ''key'' 500 True) = Inl NotAvailable \<and>
   returned (get_cell_value table_P500 (500, ''T'') ''key'' 501 True) = Inr (Some (IntV 100)) \<and>
   returned (get_value (cells table_P500) (500, ''T'') ''other'') = Inr None \<and>
   returned (get_cell_value table_P500 (500, ''T'') ''other'' 501 True) = Inl NameError \<and>
   returned (get_cell_value table_P500 (500, ''A'') ''key'' 500 True) = Inl NameError"
  by (simp add: table_P500_def table_P_def table_eval_defs)

text \<open>
  C7 (the code departs from the claim). In the table with columns A and B, nothing
  stored: the first read of (1, A) with the key "key" runs \<open>key_init\<close> and raises
  NameError at \<open>result = NoneClass()\<close>, before anything is stored; the second read
  finds the store as empty as before, runs \<open>key_init\<close> again and raises again. With a
  \<open>ConstColumn\<close>, whose \<open>key_init\<close> stores the constant and returns \<open>None\<close>, the
  first read raises NameError and the second returns the constant.
\<close>

theorem C7_miss_raises_and_reruns_key_init:
  "returned (get_cell_value table_AB (1, ''A'') ''key'' MAX_DATE CHECK_DATE_AVAILABILITY)
     = Inl NameError \<and>
   key_init_log (state_after
       (get_cell_value table_AB (1, ''A'') ''key'' MAX_DATE CHECK_DATE_AVAILABILITY))
     = [(''A'', (1, ''A''), ''key'')] \<and>
   returned (get_value (cells (state_after
       (get_cell_value table_AB (1, ''A'') ''key'' MAX_DATE CHECK_DATE_AVAILABILITY)))
       (1, ''A'') ''key'') = Inr None \<and>
   returned (get_cell_value
       (state_after (get_cell_value table_AB (1, ''A'') ''key'' MAX_DATE CHECK_DATE_AVAILABILITY))
       (1, ''A'') ''key'' MAX_DATE CHECK_DATE_AVAILABILITY)
     = Inl NameError \<and>
   key_init_log (state_after (get_cell_value
       (state_after (get_cell_value table_AB (1, ''A'') ''key'' MAX_DATE CHECK_DATE_AVAILABILITY))
       (1, ''A'') ''key'' MAX_DATE CHECK_DATE_AVAILABILITY))
     = [(''A'', (1, ''A''), ''key''), (''A'', (1, ''A''), ''key'')] \<and>
   returned (get_cell_value table_const (1, ''C'') ''key'' MAX_DATE CHECK_DATE_AVAILABILITY)
     = Inl NameError \<and>
   returned (get_cell_value
       (state_after (get_cell_value table_const (1, ''C'') ''key'' MAX_DATE CHECK_DATE_AVAILABILITY))
       (1, ''C'') ''key'' MAX_DATE CHECK_DATE_AVAILABILITY)
     = Inr (Some (IntV 5))"
  by (simp add: table_AB_def table_const_def CHECK_DATE_AVAILABILITY_def table_eval_defs)

text \<open>
  C6 (the code departs from the claim). In the read-only store of capacity 1, after a
  read on page 1, a read of the key "k" of address 2 loads page 2 and puts it in front;
  the cache now exceeds the capacity, \<open>_save_single_page\<close> raises at its read-only
  test, and the line that cuts the cache is not reached. \<open>get_value\<close> swallows the
  error: it returns \<open>None\<close> although the file of page 2 holds 7 for that key, and two
  pages stay resident in a cache of capacity 1. The same read once more finds page 2
  resident and returns 7.
\<close>

theorem C6_readonly_cache_overflow:
  "cache_size store_ro = 1 \<and>
   files store_ro 2 = Some (Pickled [(2, ''k'') \<mapsto> Some 7]) \<and>
   resident (run_ops store_ro [GetValue 1 ''k'']) = [1] \<and>
   returned (get_value (run_ops store_ro [GetValue 1 ''k'']) 2 ''k'') = Inr None \<and>
   resident (run_ops store_ro [GetValue 1 ''k'', GetValue 2 ''k'']) = [2, 1] \<and>
   cache_size (run_ops store_ro [GetValue 1 ''k'', GetValue 2 ''k''])
     < int (length (cache (run_ops store_ro [GetValue 1 ''k'', GetValue 2 ''k'']))) \<and>
   returned (get_value (run_ops store_ro [GetValue 1 ''k'', GetValue 2 ''k'']) 2 ''k'')
     = Inr (Some 7)"
  by (simp add: run_ops_def apply_op_def store_ro_def state_after_def returned_def get_value_def
      get_page_def load_new_page_def load_file_def save_single_page_def resident_def addr_key_def)

text \<open>
  C1 (the code departs from the claim). In the expiry scenario \<open>refresh\<close> of the
  waterfall column writes 0, 1, 21, 321, 4320 and 54300 at the dates 10000 to 60000 and
  then does not complete: adding the increment of the date 60000 it reads the metric
  cell of that date, which has no value, and \<open>get_cell_value\<close> raises NameError at
  \<open>result = NoneClass()\<close>. This holds with the quarter boundaries of \<open>Waterfall\<close> and
  with the boundaries of the tests' \<open>MockWaterfall\<close>.
\<close>

theorem C1_refresh_raises_NameError:
  "returned (get_cell_value expiry_table (60000, ''Points1'') ''row_1'' MAX_DATE
       CHECK_DATE_AVAILABILITY) = Inl NameError \<and>
   returned (refresh (expiry_wf date_to_snapshot_date) expiry_table) = Inl NameError \<and>
   read_column (snd (state_after (refresh (expiry_wf date_to_snapshot_date) expiry_table)))
       ''player1_wf'' ''row_1'' [10000, 20000, 30000, 40000, 50000, 60000]
     = [Inr (Some (IntV 0)), Inr (Some (IntV 1)), Inr (Some (IntV 21)),
        Inr (Some (IntV 321)), Inr (Some (IntV 4320)), Inr (Some (IntV 54300))] \<and>
   returned (refresh (expiry_wf mock_date_to_snapshot_date) expiry_table) = Inl NameError \<and>
   read_column (snd (state_after (refresh (expiry_wf mock_date_to_snapshot_date) expiry_table)))
       ''player1_wf'' ''row_1'' [10000, 20000, 30000, 40000, 50000, 60000]
     = [Inr (Some (IntV 0)), Inr (Some (IntV 1)), Inr (Some (IntV 21)),
        Inr (Some (IntV 321)), Inr (Some (IntV 4320)), Inr (Some (IntV 54300))]"
  by code_simp

text \<open>
  C5 (as amended). In the snapshot scenario, with checkpoint boundaries at the multiples
  of 100000 (\<open>MockWaterfall\<close>), \<open>refresh\<close> completes, the checkpoint dates recorded
  are 0, 100000, 200000, 300000, and the stored snapshots are empty, X: 1, X: 321 and
  X: 54321.
\<close>

theorem C5_snapshot_checkpoints:
  "returned (refresh (snapshot_wf mock_date_to_snapshot_date) snapshot_table) = Inr () \<and>
   dates (snapshot_dates (fst (state_after
       (refresh (snapshot_wf mock_date_to_snapshot_date) snapshot_table))))
     = [0, 100000, 200000, 300000] \<and>
   map (\<lambda>d. returned (get_date_value (snapshot_master (fst (state_after
       (refresh (snapshot_wf mock_date_to_snapshot_date) snapshot_table)))) d))
       [0, 100000, 200000, 300000]
     = [Inr (Some []), Inr (Some [(Some (StrV ''X''), 1)]), Inr (Some [(Some (StrV ''X''), 321)]),
        Inr (Some [(Some (StrV ''X''), 54321)])]"
  by code_simp

text \<open>
  C5 as stated, for \<open>Waterfall\<close> with its own \<open>_date_to_snapshot_date\<close>: the
  checkpoint dates are the quarter starts computed from the six dates, not the
  multiples of 100000.
\<close>

theorem C5_quarter_boundary_counterexample:
  "dates (snapshot_dates (fst (state_after
       (refresh (snapshot_wf date_to_snapshot_date) snapshot_table))))
     = [49801, 149801, 179801, 219801, 249801, 299801] \<and>
   dates (snapshot_dates (fst (state_after
       (refresh (snapshot_wf date_to_snapshot_date) snapshot_table))))
     \<noteq> [0, 100000, 200000, 300000]"
  by code_simp







text \<open>
  C2. For a graph with distinct keys: if its edges between keys are acyclic,
  \<open>topological\<close> returns a list that holds every key exactly once and in which, for
  every such edge from \<open>u\<close> to its child \<open>v\<close>, \<open>u\<close> comes before \<open>v\<close>; if
  they contain a cycle, it raises ValueError. Children that are not keys are ignored:
  the outcome is that of the graph without them.
\<close>

theorem C2_topological_order:
  assumes "distinct (map fst graph)"
  shows "(acyclic (edges graph) \<longrightarrow>
            (\<exists>order. topological graph = Inr order \<and> distinct order \<and>
               set order = fst ` set graph \<and>
               (\<forall>(u, v) \<in> edges graph. index_of order u < index_of order v))) \<and>
         (\<not> acyclic (edges graph) \<longrightarrow> topological graph = Inl ValueError) \<and>
         topological (prune graph) = topological graph"
  using topological_cases [OF assms] topological_prune [of graph] by blast

theorem C2_topological_order_witness:
  "topological graph_lax = Inr [''a'', ''b''] \<and>
   index_of [''a'', ''b''] ''a'' < index_of [''a'', ''b''] ''b'' \<and>
   topological (prune graph_lax) = Inr [''a'', ''b''] \<and>
   topological graph_cycle = Inl ValueError"
proof -
  have d1: "distinct (map fst graph_lax)" and d2: "distinct (map fst graph_cycle)"
    by (simp_all add: graph_lax_def graph_cycle_def)
  have e1: "edges graph_lax = {(''a'', ''b'')}"
    by (auto simp: edges_def graph_lax_def)
  have ac: "acyclic (edges graph_lax)"
    unfolding e1
    by (rule acyclicI_order [where f = "\<lambda>x. if x = ''a'' then 1 else (0::nat)"]) simp
  have val: "topological graph_lax = Inr [''a'', ''b'']"
    unfolding graph_lax_def by code_simp
  from C2_topological_order [OF d1] ac val e1
  have ord: "index_of [''a'', ''b''] ''a'' < index_of [''a'', ''b''] ''b''"
    and pr: "topological (prune graph_lax) = Inr [''a'', ''b'']"
    by auto
  have "(''a'', ''b'') \<in> edges graph_cycle" "(''b'', ''c'') \<in> edges graph_cycle"
    "(''c'', ''a'') \<in> edges graph_cycle"
    by (auto simp: edges_def graph_cycle_def)
  then have "(''a'', ''a'') \<in> (edges graph_cycle)\<^sup>+"
    by (meson trancl.intros)
  then have nac: "\<not> acyclic (edges graph_cycle)" by (auto simp: acyclic_def)
  from C2_topological_order [OF d2] nac
  have "topological graph_cycle = Inl ValueError" by blast
  with val ord pr show ?thesis by blast
qed

end
